theory Spec2Isabelle
  imports Main
begin

section \<open>The TCP ping-pong program (main.cpp)\<close>

text \<open>
  The program is a sequence of system calls whose results come from the operating system.
  Each process is modelled as a function on a \<open>world\<close>: the results the system will give
  to the calls of this process (the environment, read only forwards) and the trace of the
  calls made so far. A call for which the environment holds no result does not return:
  the process stays blocked in it, or, in \<open>send\<close>, is killed by a signal. Console output
  on \<open>std::cout\<close> is left out; the message written to \<open>std::cerr\<close> is an event of the
  trace.
\<close>

subsection \<open>Constants\<close>

definition PORT :: int where
  "PORT = 9889"

definition MAX_ITERATIONS :: int where
  "MAX_ITERATIONS = 6"

subsection \<open>Events, exceptions, results\<close>

datatype event =
    EvSocket int                      \<comment> \<open>\<open>socket(...)\<close> returned this value\<close>
  | EvSetsockopt int int              \<comment> \<open>descriptor, return value\<close>
  | EvBind int int int                \<comment> \<open>descriptor, port, return value\<close>
  | EvListen int int int              \<comment> \<open>descriptor, backlog, return value\<close>
  | EvFork int                        \<comment> \<open>return value\<close>
  | EvAccept int int                  \<comment> \<open>descriptor, return value\<close>
  | EvInetPton int                    \<comment> \<open>return value\<close>
  | EvSleep                           \<comment> \<open>\<open>sleep(1)\<close>\<close>
  | EvSleepFor                        \<comment> \<open>\<open>std::this_thread::sleep_for(1s)\<close>\<close>
  | EvConnect int int                 \<comment> \<open>descriptor, return value\<close>
  | EvSend int "char list" int        \<comment> \<open>descriptor, bytes handed over, return value\<close>
  | EvRecv int nat int "char list"    \<comment> \<open>descriptor, buffer size, return value, bytes stored\<close>
  | EvClose int                       \<comment> \<open>descriptor\<close>
  | EvWaitpid int                     \<comment> \<open>status stored by \<open>waitpid\<close>\<close>
  | EvStderr string                   \<comment> \<open>text written to \<open>std::cerr\<close>\<close>

datatype exn = runtime_error string   \<comment> \<open>\<open>std::runtime_error\<close> with its \<open>what()\<close>\<close>

datatype 'a result =
    Returned 'a    \<comment> \<open>the call returns\<close>
  | Thrown exn     \<comment> \<open>the call throws\<close>
  | Blocked        \<comment> \<open>the call never returns: the process waits in it for ever\<close>
  | Killed         \<comment> \<open>the process is ended by the signal \<open>SIGPIPE\<close> inside the call\<close>
  | Undefined      \<comment> \<open>the call reads outside an array: undefined behaviour, nothing is known\<close>

record world =
  trace :: "event list"
  socket_rets :: "int list"
  setsockopt_ret :: int
  bind_ret :: int
  listen_ret :: int
  fork_ret :: int
  accept_ret :: "int option"
  inet_pton_ret :: int
  connect_ret :: int
  send_rets :: "int list"
  sigpipe :: bool
  recv_rets :: "(int \<times> char list \<times> char list) list"
  wait_status :: int
  errno_text :: string

text \<open>
  \<open>send_rets\<close> holds the values of the calls of \<open>send\<close> that return. \<open>send\<close> is
  called with flags 0, so on a connection that is broken it raises \<open>SIGPIPE\<close>, which is
  not handled and ends the process: the first \<open>send\<close> past \<open>send_rets\<close> does not
  return, and \<open>sigpipe\<close> tells whether the process is killed there or waits for ever.

  An entry \<open>(n, data, mem)\<close> of \<open>recv_rets\<close> is one return of \<open>recv\<close>: the return
  value \<open>n\<close>, the \<open>n\<close> bytes it stored (when \<open>n > 0\<close>), and \<open>mem\<close>, of which the
  first 128 bytes are what the local array \<open>buf\<close> held before the call: the code does not
  initialise the array, so they are any bytes. \<open>recv\<close> is given the size 128 and never
  returns more; what lies behind the array is not part of the model, and a read that leaves
  the array is \<open>Undefined\<close>.
  \<open>errno_text\<close> is what \<open>std::strerror(errno)\<close> gives when \<open>sys_error\<close> runs.
\<close>

definition log :: "event \<Rightarrow> world \<Rightarrow> world" where
  "log e w = w\<lparr>trace := trace w @ [e]\<rparr>"

definition NUL :: char where
  "NUL = CHR 0x00"

definition c_str :: "char list \<Rightarrow> string" where
  \<comment> \<open>the characters of a C string: those before the first null byte\<close>
  "c_str bytes = takeWhile (\<lambda>c. c \<noteq> NUL) bytes"

definition sys_error :: "string \<Rightarrow> world \<Rightarrow> exn" where
  "sys_error msg w = runtime_error (msg @ '': '' @ errno_text w)"

subsection \<open>class Socket\<close>

record Socket =
  fd :: int   \<comment> \<open>the member \<open>fd_\<close>, read by \<open>fd()\<close>\<close>


definition Socket_ctor :: "int \<Rightarrow> world \<Rightarrow> Socket result" where
  "Socket_ctor d w = (if d < 0 then Thrown (sys_error ''socket'' w) else Returned \<lparr>fd = d\<rparr>)"

definition Socket_dtor :: "Socket \<Rightarrow> world \<Rightarrow> world" where
  "Socket_dtor this w = (if fd this \<ge> 0 then log (EvClose (fd this)) w else w)"

definition Socket_move_ctor :: "Socket \<Rightarrow> Socket \<times> Socket" where
  \<comment> \<open>gives the new object and the state \<open>other\<close> is left in\<close>
  "Socket_move_ctor other = (\<lparr>fd = fd other\<rparr>, other\<lparr>fd := -1\<rparr>)"

definition Socket_move_assign :: "Socket \<Rightarrow> Socket \<Rightarrow> world \<Rightarrow> (Socket \<times> Socket) \<times> world" where
  \<comment> \<open>the body under \<open>this != &other\<close>: two different objects\<close>
  "Socket_move_assign this other w =
     (let w1 = (if fd this \<ge> 0 then log (EvClose (fd this)) w else w)
      in ((this\<lparr>fd := fd other\<rparr>, other\<lparr>fd := -1\<rparr>), w1))"

definition send_str :: "Socket \<Rightarrow> string \<Rightarrow> world \<Rightarrow> unit result \<times> world" where
  \<comment> \<open>\<open>s.size() + 1\<close> bytes are handed to \<open>send\<close>: the callers pass string literals, whose
      storage ends in a null byte\<close>
  "send_str this s w =
     (case send_rets w of
        [] \<Rightarrow> (if sigpipe w then Killed else Blocked, w)
      | r # rs \<Rightarrow>
          (let w1 = log (EvSend (fd this) (s @ [NUL]) r) (w\<lparr>send_rets := rs\<rparr>)
           in if r < 0 then (Thrown (sys_error ''send'' w1), w1) else (Returned (), w1)))"

definition buf_after :: "int \<Rightarrow> char list \<Rightarrow> char list \<Rightarrow> char list" where
  \<comment> \<open>the array \<open>buf\<close> after \<open>recv\<close> returned \<open>n\<close> and stored \<open>data\<close>: the bytes stored,
      then the bytes the array held before\<close>
  "buf_after n data mem = take (nat n) data @ drop (nat n) (take 128 mem)"

definition recv_str :: "Socket \<Rightarrow> world \<Rightarrow> string result \<times> world" where
  \<comment> \<open>\<open>return {buf}\<close> builds the string from the bytes before the first null byte; with
      no null byte in the array it reads on behind the array\<close>
  "recv_str this w =
     (case recv_rets w of
        [] \<Rightarrow> (Blocked, w)
      | (n, data, mem) # rs \<Rightarrow>
          (let buf = buf_after n data mem;
               w1 = log (EvRecv (fd this) 128 n (take (nat n) data)) (w\<lparr>recv_rets := rs\<rparr>)
           in if n \<le> 0 then (Thrown (sys_error ''recv'' w1), w1)
              else if NUL \<in> set buf then (Returned (c_str buf), w1)
              else (Undefined, w1)))"

subsection \<open>class TcpServer\<close>

definition sys_socket :: "world \<Rightarrow> int option \<times> world" where
  "sys_socket w =
     (case socket_rets w of
        [] \<Rightarrow> (None, w)
      | r # rs \<Rightarrow> (Some r, log (EvSocket r) (w\<lparr>socket_rets := rs\<rparr>)))"



subsection \<open>The two roles\<close>

function process_a_loop :: "Socket \<Rightarrow> int \<Rightarrow> world \<Rightarrow> unit result \<times> world" where
  "process_a_loop conn i w =
     (if i < MAX_ITERATIONS then
        (let w1 = log EvSleepFor w
         in case send_str conn ''PING'' w1 of
              (Thrown e, w2) \<Rightarrow> (Thrown e, w2)
            | (Blocked, w2) \<Rightarrow> (Blocked, w2)
            | (Killed, w2) \<Rightarrow> (Killed, w2)
            | (Undefined, w2) \<Rightarrow> (Undefined, w2)
            | (Returned u, w2) \<Rightarrow>
                (case recv_str conn w2 of
                   (Thrown e, w3) \<Rightarrow> (Thrown e, w3)
                 | (Blocked, w3) \<Rightarrow> (Blocked, w3)
                 | (Killed, w3) \<Rightarrow> (Killed, w3)
                 | (Undefined, w3) \<Rightarrow> (Undefined, w3)
                 | (Returned msg, w3) \<Rightarrow> process_a_loop conn (i + 1) w3))
      else (Returned (), w))"
  by pat_completeness auto
termination
  by (relation "measure (\<lambda>(conn, i, w). nat (MAX_ITERATIONS - i))") auto

definition process_a :: "Socket \<Rightarrow> world \<Rightarrow> unit result \<times> world" where
  \<comment> \<open>the body; the parameter \<open>conn\<close> is built and destroyed by the caller\<close>
  "process_a conn w = process_a_loop conn 0 w"

function process_b_loop :: "Socket \<Rightarrow> int \<Rightarrow> world \<Rightarrow> unit result \<times> world" where
  "process_b_loop sock i w =
     (if i < MAX_ITERATIONS then
        (case recv_str sock w of
           (Thrown e, w1) \<Rightarrow> (Thrown e, w1)
         | (Blocked, w1) \<Rightarrow> (Blocked, w1)
         | (Killed, w1) \<Rightarrow> (Killed, w1)
         | (Undefined, w1) \<Rightarrow> (Undefined, w1)
         | (Returned msg, w1) \<Rightarrow>
             (let w2 = log EvSleepFor w1
              in case send_str sock ''PONG'' w2 of
                   (Thrown e, w3) \<Rightarrow> (Thrown e, w3)
                 | (Blocked, w3) \<Rightarrow> (Blocked, w3)
                 | (Killed, w3) \<Rightarrow> (Killed, w3)
                 | (Undefined, w3) \<Rightarrow> (Undefined, w3)
                 | (Returned u, w3) \<Rightarrow> process_b_loop sock (i + 1) w3))
      else (Returned (), w))"
  by pat_completeness auto
termination
  by (relation "measure (\<lambda>(sock, i, w). nat (MAX_ITERATIONS - i))") auto

definition process_b :: "world \<Rightarrow> unit result \<times> world" where
  \<comment> \<open>the local \<open>sock\<close> is destroyed when the function is left, by return or by
      exception; a process that is killed or waits for ever leaves nothing\<close>
  "process_b w =
     (case sys_socket w of
        (None, w0) \<Rightarrow> (Blocked, w0)
      | (Some r, w1) \<Rightarrow>
     (case Socket_ctor r w1 of
        Thrown e \<Rightarrow> (Thrown e, w1)
      | Blocked \<Rightarrow> (Blocked, w1)
      | Killed \<Rightarrow> (Killed, w1)
      | Undefined \<Rightarrow> (Undefined, w1)
      | Returned sock \<Rightarrow>
          (let w2 = log (EvInetPton (inet_pton_ret w1)) w1
           in if inet_pton_ret w1 \<le> 0
              then (Thrown (sys_error ''inet_pton'' w2), Socket_dtor sock w2)
              else
          (let w3 = log EvSleep w2;
               w4 = log (EvConnect (fd sock) (connect_ret w3)) w3
           in if connect_ret w3 < 0
              then (Thrown (sys_error ''connect'' w4), Socket_dtor sock w4)
              else
          (case process_b_loop sock 0 w4 of
             (Blocked, w5) \<Rightarrow> (Blocked, w5)
           | (Killed, w5) \<Rightarrow> (Killed, w5)
           | (Undefined, w5) \<Rightarrow> (Undefined, w5)
           | (Thrown e, w5) \<Rightarrow> (Thrown e, Socket_dtor sock w5)
           | (Returned u, w5) \<Rightarrow> (Returned (), Socket_dtor sock w5))))))"

subsection \<open>main\<close>




subsection \<open>Traces of the two loops\<close>

text \<open>
  The world after the send of one round of \<open>process_a\<close>, the world after one receive,
  and the events of completed rounds of either role, from the results the system gave.
\<close>

definition sent_a :: "Socket \<Rightarrow> int \<Rightarrow> int list \<Rightarrow> world \<Rightarrow> world" where
  "sent_a conn r rs w =
     log (EvSend (fd conn) (''PING'' @ [NUL]) r) ((log EvSleepFor w)\<lparr>send_rets := rs\<rparr>)"

definition received :: "Socket \<Rightarrow> int \<Rightarrow> char list \<Rightarrow> (int \<times> char list \<times> char list) list \<Rightarrow> world \<Rightarrow> world" where
  "received conn n d rr w = log (EvRecv (fd conn) 128 n (take (nat n) d)) (w\<lparr>recv_rets := rr\<rparr>)"

definition sent_b :: "Socket \<Rightarrow> int \<Rightarrow> int list \<Rightarrow> world \<Rightarrow> world" where
  "sent_b sock r rs w =
     log (EvSend (fd sock) (''PONG'' @ [NUL]) r) ((log EvSleepFor w)\<lparr>send_rets := rs\<rparr>)"

fun rounds_a :: "Socket \<Rightarrow> int list \<Rightarrow> (int \<times> char list \<times> char list) list \<Rightarrow> event list" where
  "rounds_a conn (s # ss) ((n, d, mem) # rr) =
     [EvSleepFor, EvSend (fd conn) (''PING'' @ [NUL]) s, EvRecv (fd conn) 128 n (take (nat n) d)]
     @ rounds_a conn ss rr"
| "rounds_a conn ss rr = []"

fun rounds_b :: "Socket \<Rightarrow> int list \<Rightarrow> (int \<times> char list \<times> char list) list \<Rightarrow> event list" where
  "rounds_b sock (s # ss) ((n, d, mem) # rr) =
     [EvRecv (fd sock) 128 n (take (nat n) d), EvSleepFor, EvSend (fd sock) (''PONG'' @ [NUL]) s]
     @ rounds_b sock ss rr"
| "rounds_b sock ss rr = []"

fun terminated :: "int \<times> char list \<times> char list \<Rightarrow> bool" where
  \<comment> \<open>after this read the array holds a null byte\<close>
  "terminated (n, d, mem) = (NUL \<in> set (buf_after n d mem))"

definition answered :: "nat \<Rightarrow> world \<Rightarrow> bool" where
  \<comment> \<open>the system answers the next \<open>k\<close> sends with a value that is not negative and the
      next \<open>k\<close> receives with a positive one, each leaving a null byte in the array\<close>
  "answered k w \<longleftrightarrow>
     k \<le> length (send_rets w) \<and> k \<le> length (recv_rets w) \<and>
     list_all (\<lambda>r. 0 \<le> r) (take k (send_rets w)) \<and>
     list_all (\<lambda>x. 0 < fst x \<and> terminated x) (take k (recv_rets w))"

fun is_send :: "event \<Rightarrow> bool" where
  "is_send (EvSend d bytes r) = True"
| "is_send e = False"

fun is_recv :: "event \<Rightarrow> bool" where
  "is_recv (EvRecv d len n bytes) = True"
| "is_recv e = False"

fun alternates_on :: "(int \<Rightarrow> char list \<Rightarrow> bool) \<Rightarrow> bool \<Rightarrow> event list \<Rightarrow> bool" where
  \<comment> \<open>no send while one is pending: a send makes one pending, a receive whose return
      value and bytes satisfy \<open>P\<close> clears it\<close>
  "alternates_on P pending [] = True"
| "alternates_on P pending (EvSend d bytes r # es) = (\<not> pending \<and> alternates_on P True es)"
| "alternates_on P pending (EvRecv d len n bytes # es) =
     alternates_on P (if P n bytes then False else pending) es"
| "alternates_on P pending (e # es) = alternates_on P pending es"

definition returned_data :: "int \<Rightarrow> char list \<Rightarrow> bool" where
  \<comment> \<open>the receive returned at least one byte\<close>
  "returned_data n bytes \<longleftrightarrow> 0 < n"

definition ended_message :: "int \<Rightarrow> char list \<Rightarrow> bool" where
  \<comment> \<open>the receive returned bytes with the terminator of a message among them\<close>
  "ended_message n bytes \<longleftrightarrow> 0 < n \<and> NUL \<in> set bytes"

fun delivers :: "(int \<Rightarrow> char list \<Rightarrow> bool) \<Rightarrow> int \<times> char list \<times> char list \<Rightarrow> bool" where
  \<comment> \<open>this read fails, or its return value and the bytes it stores satisfy \<open>P\<close>\<close>
  "delivers P (n, d, mem) = (0 < n \<longrightarrow> P n (take (nat n) d))"

subsection \<open>Messages in the bytes received\<close>

text \<open>
  A message is a text without null byte followed by one null byte, its terminator. The
  messages a process has received are the complete ones in the bytes its reads stored,
  taken in order.
\<close>

fun stored :: "event \<Rightarrow> char list" where
  "stored (EvRecv d len n bytes) = bytes"
| "stored e = []"

definition delivered :: "event list \<Rightarrow> char list" where
  "delivered ev = concat (map stored ev)"

fun split_messages :: "char list \<Rightarrow> char list \<Rightarrow> string list" where
  \<comment> \<open>\<open>acc\<close> holds, last byte first, the bytes of the message not yet ended\<close>
  "split_messages acc [] = []"
| "split_messages acc (c # cs) =
     (if c = NUL then rev acc # split_messages [] cs else split_messages (c # acc) cs)"

definition messages :: "char list \<Rightarrow> string list" where
  "messages bytes = split_messages [] bytes"

fun whole_message :: "int \<times> char list \<times> char list \<Rightarrow> bool" where
  \<comment> \<open>this read delivers exactly one message: a text and its terminator\<close>
  "whole_message (n, d, mem) =
     (n = int (length d) \<and> d \<noteq> [] \<and> last d = NUL \<and> NUL \<notin> set (butlast d))"

fun text_of :: "int \<times> char list \<times> char list \<Rightarrow> string" where
  "text_of (n, d, mem) = butlast d"

definition events_of :: "world \<Rightarrow> world \<Rightarrow> event list" where
  \<comment> \<open>the events added to the trace between two worlds\<close>
  "events_of w w' = drop (length (trace w)) (trace w')"

definition dialled :: "int \<Rightarrow> int list \<Rightarrow> world \<Rightarrow> world" where
  \<comment> \<open>the world of \<open>process_b\<close> when its loop starts\<close>
  "dialled r rs w =
     w\<lparr>socket_rets := rs,
       trace := trace w @ [EvSocket r, EvInetPton (inet_pton_ret w), EvSleep,
                           EvConnect r (connect_ret w)]\<rparr>"

definition dial_ok :: "world \<Rightarrow> bool" where
  \<comment> \<open>\<open>socket\<close>, \<open>inet_pton\<close> and \<open>connect\<close> of \<open>process_b\<close> succeed\<close>
  "dial_ok w \<longleftrightarrow>
     (case socket_rets w of [] \<Rightarrow> False | r # rs \<Rightarrow> 0 \<le> r) \<and> 0 < inet_pton_ret w \<and> 0 \<le> connect_ret w"

subsection \<open>Concrete environments\<close>

definition quiet :: world where
  "quiet = \<lparr>trace = [], socket_rets = [], setsockopt_ret = 0, bind_ret = 0, listen_ret = 0,
            fork_ret = 0, accept_ret = None, inet_pton_ret = 1, connect_ret = 0,
            send_rets = [], sigpipe = False, recv_rets = [], wait_status = 0, errno_text = []\<rparr>"

definition zeros :: "char list" where
  "zeros = replicate 128 NUL"

definition initiator_world :: world where
  \<comment> \<open>six sends accepted whole, six acknowledges delivered whole\<close>
  "initiator_world =
     quiet\<lparr>send_rets := replicate 6 5, recv_rets := replicate 6 (5, ''PONG'' @ [NUL], zeros)\<rparr>"

definition responder_world :: world where
  "responder_world =
     quiet\<lparr>socket_rets := [4], send_rets := replicate 6 5,
           recv_rets := replicate 6 (5, ''PING'' @ [NUL], zeros)\<rparr>"

definition closed_world :: world where
  \<comment> \<open>two acknowledges, then the peer has closed: the third read returns 0\<close>
  "closed_world =
     quiet\<lparr>send_rets := [5, 5, 5],
           recv_rets := [(5, ''PONG'' @ [NUL], zeros), (5, ''PONG'' @ [NUL], zeros), (0, [], zeros)]\<rparr>"

definition eof_world :: world where
  \<comment> \<open>the peer has closed: the read returns 0\<close>
  "eof_world = quiet\<lparr>recv_rets := [(0, [], zeros)]\<rparr>"

definition split_world :: world where
  \<comment> \<open>the five bytes of one message delivered by two reads\<close>
  "split_world = quiet\<lparr>recv_rets := [(2, ''PI'', zeros), (3, ''NG'' @ [NUL], zeros)]\<rparr>"

definition joined_world :: world where
  \<comment> \<open>two messages delivered by one read\<close>
  "joined_world = quiet\<lparr>recv_rets := [(10, ''PONG'' @ [NUL] @ ''PING'' @ [NUL], zeros)]\<rparr>"

definition unterminated_world :: world where
  \<comment> \<open>four bytes without a terminator; the array held \<open>"....YZ"\<close> before the call\<close>
  "unterminated_world = quiet\<lparr>recv_rets := [(4, ''PING'', ''....YZ'' @ zeros)]\<rparr>"

definition overrun_world :: world where
  \<comment> \<open>two bytes without a terminator, into an array that held no null byte\<close>
  "overrun_world = quiet\<lparr>recv_rets := [(2, ''PI'', replicate 128 (CHR ''Z''))]\<rparr>"

definition fragments :: "string \<Rightarrow> (int \<times> char list \<times> char list) list" where
  \<comment> \<open>three messages of four letters, each delivered by two reads, of two and of three bytes\<close>
  "fragments s =
     [(2, take 2 s, zeros), (3, drop 2 s @ [NUL], zeros),
      (2, take 2 s, zeros), (3, drop 2 s @ [NUL], zeros),
      (2, take 2 s, zeros), (3, drop 2 s @ [NUL], zeros)]"

definition initiator_fragments_world :: world where
  "initiator_fragments_world = quiet\<lparr>send_rets := replicate 6 5, recv_rets := fragments ''PONG''\<rparr>"

definition responder_fragments_world :: world where
  "responder_fragments_world =
     quiet\<lparr>socket_rets := [4], send_rets := replicate 6 5, recv_rets := fragments ''PING''\<rparr>"

definition short_write_world :: world where
  \<comment> \<open>the system takes two of the five bytes\<close>
  "short_write_world = quiet\<lparr>send_rets := [2]\<rparr>"

subsection \<open>Handles as objects\<close>

text \<open>
  The handles that are alive, by address. The special member functions of \<open>Socket\<close>
  act on this store; move assignment compares the two addresses, as the code does with
  \<open>this != &other\<close>. An address that holds no live handle is left alone.
\<close>

type_synonym store = "nat \<rightharpoonup> Socket"

definition construct :: "nat \<Rightarrow> int \<Rightarrow> store \<times> world \<Rightarrow> unit result \<times> store \<times> world" where
  "construct a d sw =
     (case sw of (st, w) \<Rightarrow>
        (case Socket_ctor d w of
           Returned s \<Rightarrow> (Returned (), st(a \<mapsto> s), w)
         | Thrown e \<Rightarrow> (Thrown e, st, w)
         | Blocked \<Rightarrow> (Blocked, st, w)
         | Killed \<Rightarrow> (Killed, st, w)
         | Undefined \<Rightarrow> (Undefined, st, w)))"

definition move_construct :: "nat \<Rightarrow> nat \<Rightarrow> store \<Rightarrow> store" where
  "move_construct new other st =
     (case st other of
        None \<Rightarrow> st
      | Some s \<Rightarrow> (case Socket_move_ctor s of (n, s') \<Rightarrow> st(other \<mapsto> s', new \<mapsto> n)))"

definition move_assign :: "nat \<Rightarrow> nat \<Rightarrow> store \<times> world \<Rightarrow> store \<times> world" where
  "move_assign this other sw =
     (case sw of (st, w) \<Rightarrow>
        (case (st this, st other) of
           (Some t, Some s) \<Rightarrow>
             if this \<noteq> other
             then (case Socket_move_assign t s w of
                     ((t', s'), w') \<Rightarrow> (st(this \<mapsto> t', other \<mapsto> s'), w'))
             else (st, w)
         | _ \<Rightarrow> (st, w)))"

definition destroy :: "nat \<Rightarrow> store \<times> world \<Rightarrow> store \<times> world" where
  "destroy a sw =
     (case sw of (st, w) \<Rightarrow>
        (case st a of
           None \<Rightarrow> (st, w)
         | Some s \<Rightarrow> (st(a := None), Socket_dtor s w)))"

definition sole_owner :: "store \<Rightarrow> bool" where
  \<comment> \<open>no descriptor is held by two live handles\<close>
  "sole_owner st \<longleftrightarrow>
     (\<forall>a b s t. st a = Some s \<and> st b = Some t \<and> 0 \<le> fd s \<and> fd s = fd t \<longrightarrow> a = b)"

definition unowned :: "int \<Rightarrow> store \<Rightarrow> bool" where
  "unowned d st \<longleftrightarrow> (\<forall>a s. st a = Some s \<longrightarrow> fd s \<noteq> d)"

definition closes :: "Socket \<Rightarrow> event list" where
  \<comment> \<open>the calls of \<open>close\<close> that releasing this handle makes\<close>
  "closes s = (if 0 \<le> fd s then [EvClose (fd s)] else [])"

definition two_handles :: store where
  "two_handles = [0 \<mapsto> \<lparr>fd = 3\<rparr>, 1 \<mapsto> \<lparr>fd = -1\<rparr>]"

subsection \<open>Stages of main\<close>


definition listening :: "int \<Rightarrow> int list \<Rightarrow> world \<Rightarrow> world" where
  \<comment> \<open>the world when the constructor of \<open>TcpServer\<close> has returned\<close>
  "listening r rs w =
     w\<lparr>socket_rets := rs,
       trace := trace w @ [EvSocket r, EvSetsockopt r (setsockopt_ret w), EvBind r PORT (bind_ret w),
                           EvListen r 1 (listen_ret w)]\<rparr>"

definition forked :: "int \<Rightarrow> int list \<Rightarrow> world \<Rightarrow> world" where
  \<comment> \<open>the world after \<open>fork\<close>: where \<open>process_b\<close> starts, in the child\<close>
  "forked r rs w = log (EvFork (fork_ret w)) (listening r rs w)"

definition accepted :: "int \<Rightarrow> int list \<Rightarrow> int \<Rightarrow> world \<Rightarrow> world" where
  \<comment> \<open>the world after \<open>accept\<close>: where \<open>process_a\<close> starts, in the parent\<close>
  "accepted r rs cfd w = log (EvAccept r cfd) (forked r rs w)"




fun is_connect :: "event \<Rightarrow> bool" where
  "is_connect (EvConnect d r) = True"
| "is_connect e = False"

fun is_exchange :: "event \<Rightarrow> bool" where
  \<comment> \<open>the events of the loops\<close>
  "is_exchange (EvSend d bytes r) = True"
| "is_exchange (EvRecv d len n bytes) = True"
| "is_exchange EvSleepFor = True"
| "is_exchange e = False"





definition refused_world :: world where
  \<comment> \<open>nobody listens on the port\<close>
  "refused_world = quiet\<lparr>socket_rets := [4], connect_ret := -1, errno_text := ''Connection refused''\<rparr>"

subsection \<open>Send and receive\<close>

lemma c_str_no_null: "NUL \<notin> set xs \<Longrightarrow> c_str (xs @ ys) = xs @ c_str ys"
  by (induction xs) (auto simp: c_str_def)

lemma c_str_message: "NUL \<notin> set msg \<Longrightarrow> c_str (msg @ NUL # rest) = msg"
  by (simp add: c_str_no_null) (simp add: c_str_def)

lemma send_str_nonneg:
  "send_rets w = r # rs \<Longrightarrow> 0 \<le> r \<Longrightarrow>
   send_str this s w = (Returned (), log (EvSend (fd this) (s @ [NUL]) r) (w\<lparr>send_rets := rs\<rparr>))"
  by (simp add: send_str_def)

lemma send_str_neg:
  "send_rets w = r # rs \<Longrightarrow> r < 0 \<Longrightarrow>
   send_str this s w = (Thrown (runtime_error (''send: '' @ errno_text w)),
                        log (EvSend (fd this) (s @ [NUL]) r) (w\<lparr>send_rets := rs\<rparr>))"
  by (simp add: send_str_def sys_error_def log_def)

lemma send_str_no_return:
  "send_rets w = [] \<Longrightarrow> send_str this s w = (if sigpipe w then Killed else Blocked, w)"
  by (simp add: send_str_def)

lemma recv_str_pos:
  "recv_rets w = (n, d, mem) # rs \<Longrightarrow> 0 < n \<Longrightarrow> terminated (n, d, mem) \<Longrightarrow>
   recv_str this w = (Returned (c_str (buf_after n d mem)),
                      log (EvRecv (fd this) 128 n (take (nat n) d)) (w\<lparr>recv_rets := rs\<rparr>))"
  by (simp add: recv_str_def)

lemma recv_str_overrun:
  "recv_rets w = (n, d, mem) # rs \<Longrightarrow> 0 < n \<Longrightarrow> \<not> terminated (n, d, mem) \<Longrightarrow>
   recv_str this w = (Undefined,
                      log (EvRecv (fd this) 128 n (take (nat n) d)) (w\<lparr>recv_rets := rs\<rparr>))"
  by (simp add: recv_str_def)

lemma recv_str_nonpos:
  "recv_rets w = (n, d, mem) # rs \<Longrightarrow> n \<le> 0 \<Longrightarrow>
   recv_str this w = (Thrown (runtime_error (''recv: '' @ errno_text w)),
                      log (EvRecv (fd this) 128 n []) (w\<lparr>recv_rets := rs\<rparr>))"
  by (simp add: recv_str_def sys_error_def log_def)

lemma recv_str_blocked: "recv_rets w = [] \<Longrightarrow> recv_str this w = (Blocked, w)"
  by (simp add: recv_str_def)

subsection \<open>The loop of process_a\<close>

declare process_a_loop.simps [simp del] process_b_loop.simps [simp del]

declare terminated.simps [simp del]

lemma process_a_loop_step:
  "i < MAX_ITERATIONS \<Longrightarrow>
   process_a_loop conn i w =
     (case send_rets w of
        [] \<Rightarrow> (if sigpipe w then Killed else Blocked, log EvSleepFor w)
      | r # rs \<Rightarrow>
          if r < 0 then (Thrown (runtime_error (''send: '' @ errno_text w)), sent_a conn r rs w)
          else (case recv_rets w of
                  [] \<Rightarrow> (Blocked, sent_a conn r rs w)
                | (n, d, mem) # rr \<Rightarrow>
                    if n \<le> 0
                    then (Thrown (runtime_error (''recv: '' @ errno_text w)),
                          received conn n d rr (sent_a conn r rs w))
                    else if terminated (n, d, mem)
                    then process_a_loop conn (i + 1) (received conn n d rr (sent_a conn r rs w))
                    else (Undefined, received conn n d rr (sent_a conn r rs w))))"
  by (subst process_a_loop.simps)
     (simp add: send_str_def recv_str_def sys_error_def Let_def log_def sent_a_def received_def
           terminated.simps split: list.splits)

lemma process_a_loop_done: "\<not> i < MAX_ITERATIONS \<Longrightarrow> process_a_loop conn i w = (Returned (), w)"
  by (subst process_a_loop.simps) simp

lemma answered_Suc_a:
  "answered (Suc k) w \<longleftrightarrow>
   (\<exists>r rs n d mem rr. send_rets w = r # rs \<and> 0 \<le> r \<and> recv_rets w = (n, d, mem) # rr \<and> 0 < n \<and>
     terminated (n, d, mem) \<and> answered k (received conn n d rr (sent_a conn r rs w)))"
  by (cases "send_rets w"; cases "recv_rets w")
     (auto simp: answered_def sent_a_def received_def log_def)

lemma process_a_loop_answered:
  "nat (MAX_ITERATIONS - i) = k \<Longrightarrow> answered k w \<Longrightarrow>
   process_a_loop conn i w =
     (Returned (), w\<lparr>trace := trace w @ rounds_a conn (take k (send_rets w)) (take k (recv_rets w)),
                     send_rets := drop k (send_rets w), recv_rets := drop k (recv_rets w)\<rparr>)"
proof (induction k arbitrary: i w)
  case 0
  then show ?case by (simp add: process_a_loop_done)
next
  case (Suc k)
  from Suc.prems(2) obtain r rs n d mem rr where
    s: "send_rets w = r # rs" "0 \<le> r" and v: "recv_rets w = (n, d, mem) # rr" "0 < n"
      "terminated (n, d, mem)"
    and a: "answered k (received conn n d rr (sent_a conn r rs w))"
    unfolding answered_Suc_a [where conn = conn] by blast
  have i: "i < MAX_ITERATIONS" "nat (MAX_ITERATIONS - (i + 1)) = k"
    using Suc.prems(1) by auto
  show ?case
    using s v by (simp add: process_a_loop_step [OF i(1)] Suc.IH [OF i(2) a])
                 (simp add: sent_a_def received_def log_def)
qed

lemma process_a_loop_returned:
  "nat (MAX_ITERATIONS - i) = k \<Longrightarrow> fst (process_a_loop conn i w) = Returned () \<Longrightarrow> answered k w"
proof (induction k arbitrary: i w)
  case 0
  then show ?case by (simp add: answered_def)
next
  case (Suc k)
  have i: "i < MAX_ITERATIONS" "nat (MAX_ITERATIONS - (i + 1)) = k"
    using Suc.prems(1) by auto
  from Suc.prems(2) show ?case
    unfolding answered_Suc_a [where conn = conn] process_a_loop_step [OF i(1)]
    by (auto split: list.splits if_splits dest: Suc.IH [OF i(2)])
qed

subsection \<open>The loop of process_b\<close>

lemma process_b_loop_step:
  "i < MAX_ITERATIONS \<Longrightarrow>
   process_b_loop sock i w =
     (case recv_rets w of
        [] \<Rightarrow> (Blocked, w)
      | (n, d, mem) # rr \<Rightarrow>
          if n \<le> 0
          then (Thrown (runtime_error (''recv: '' @ errno_text w)), received sock n d rr w)
          else if \<not> terminated (n, d, mem) then (Undefined, received sock n d rr w)
          else (case send_rets w of
                  [] \<Rightarrow> (if sigpipe w then Killed else Blocked,
                         log EvSleepFor (received sock n d rr w))
                | r # rs \<Rightarrow>
                    if r < 0
                    then (Thrown (runtime_error (''send: '' @ errno_text w)),
                          sent_b sock r rs (received sock n d rr w))
                    else process_b_loop sock (i + 1) (sent_b sock r rs (received sock n d rr w))))"
  by (subst process_b_loop.simps)
     (simp add: send_str_def recv_str_def sys_error_def Let_def log_def sent_b_def received_def
           terminated.simps split: list.splits)

lemma process_b_loop_done: "\<not> i < MAX_ITERATIONS \<Longrightarrow> process_b_loop sock i w = (Returned (), w)"
  by (subst process_b_loop.simps) simp

lemma answered_Suc_b:
  "answered (Suc k) w \<longleftrightarrow>
   (\<exists>r rs n d mem rr. send_rets w = r # rs \<and> 0 \<le> r \<and> recv_rets w = (n, d, mem) # rr \<and> 0 < n \<and>
     terminated (n, d, mem) \<and> answered k (sent_b sock r rs (received sock n d rr w)))"
  by (cases "send_rets w"; cases "recv_rets w")
     (auto simp: answered_def sent_b_def received_def log_def)

lemma process_b_loop_answered:
  "nat (MAX_ITERATIONS - i) = k \<Longrightarrow> answered k w \<Longrightarrow>
   process_b_loop sock i w =
     (Returned (), w\<lparr>trace := trace w @ rounds_b sock (take k (send_rets w)) (take k (recv_rets w)),
                     send_rets := drop k (send_rets w), recv_rets := drop k (recv_rets w)\<rparr>)"
proof (induction k arbitrary: i w)
  case 0
  then show ?case by (simp add: process_b_loop_done)
next
  case (Suc k)
  from Suc.prems(2) obtain r rs n d mem rr where
    s: "send_rets w = r # rs" "0 \<le> r" and v: "recv_rets w = (n, d, mem) # rr" "0 < n"
      "terminated (n, d, mem)"
    and a: "answered k (sent_b sock r rs (received sock n d rr w))"
    unfolding answered_Suc_b [where sock = sock] by blast
  have i: "i < MAX_ITERATIONS" "nat (MAX_ITERATIONS - (i + 1)) = k"
    using Suc.prems(1) by auto
  show ?case
    using s v by (simp add: process_b_loop_step [OF i(1)] Suc.IH [OF i(2) a])
                 (simp add: sent_b_def received_def log_def)
qed

lemma process_b_loop_returned:
  "nat (MAX_ITERATIONS - i) = k \<Longrightarrow> fst (process_b_loop sock i w) = Returned () \<Longrightarrow> answered k w"
proof (induction k arbitrary: i w)
  case 0
  then show ?case by (simp add: answered_def)
next
  case (Suc k)
  have i: "i < MAX_ITERATIONS" "nat (MAX_ITERATIONS - (i + 1)) = k"
    using Suc.prems(1) by auto
  from Suc.prems(2) show ?case
    unfolding answered_Suc_b [where sock = sock] process_b_loop_step [OF i(1)]
    by (auto split: list.splits if_splits dest: Suc.IH [OF i(2)])
qed

subsection \<open>Alternation in the loops\<close>

lemma round_cases:
  obtains (send_no_return) "send_rets w = []"
  | (send_failed) r rs where "send_rets w = r # rs" "r < 0"
  | (recv_blocked) r rs where "send_rets w = r # rs" "0 \<le> r" "recv_rets w = []"
  | (recv_failed) r rs n d mem rr where
      "send_rets w = r # rs" "0 \<le> r" "recv_rets w = (n, d, mem) # rr" "n \<le> 0"
  | (recv_overrun) r rs n d mem rr where
      "send_rets w = r # rs" "0 \<le> r" "recv_rets w = (n, d, mem) # rr" "0 < n"
      "\<not> terminated (n, d, mem)"
  | (round_ok) r rs n d mem rr where
      "send_rets w = r # rs" "0 \<le> r" "recv_rets w = (n, d, mem) # rr" "0 < n"
      "terminated (n, d, mem)"
proof (cases "send_rets w")
  case Nil
  then show ?thesis by (rule send_no_return)
next
  case s: (Cons r rs)
  show ?thesis
  proof (cases "recv_rets w")
    case Nil
    with s show ?thesis
      by (cases "r < 0") (auto intro: send_failed recv_blocked)
  next
    case (Cons x rr)
    obtain n d mem where "x = (n, d, mem)" by (cases x)
    with s Cons show ?thesis
      by (cases "r < 0"; cases "n \<le> 0"; cases "terminated (n, d, mem)")
         (auto intro: send_failed recv_failed recv_overrun round_ok)
  qed
qed

lemma process_a_loop_alternates:
  "nat (MAX_ITERATIONS - i) = k \<Longrightarrow> list_all (delivers P) (recv_rets w) \<Longrightarrow>
   \<exists>ev. trace (snd (process_a_loop conn i w)) = trace w @ ev \<and> alternates_on P False ev"
proof (induction k arbitrary: i w)
  case 0
  then show ?case by (simp add: process_a_loop_done)
next
  case (Suc k)
  have i: "i < MAX_ITERATIONS" "nat (MAX_ITERATIONS - (i + 1)) = k"
    using Suc.prems(1) by auto
  show ?case
  proof (cases w rule: round_cases)
    case (round_ok r rs n d mem rr)
    let ?w3 = "received conn n d rr (sent_a conn r rs w)"
    have p: "P n (take (nat n) d)" and rr: "list_all (delivers P) (recv_rets ?w3)"
      using Suc.prems(2) round_ok by (simp_all add: received_def sent_a_def log_def)
    from Suc.IH [OF i(2) rr] obtain ev where
      ev: "trace (snd (process_a_loop conn (i + 1) ?w3)) = trace ?w3 @ ev" "alternates_on P False ev"
      by blast
    have "trace ?w3 = trace w @ [EvSleepFor, EvSend (fd conn) (''PING'' @ [NUL]) r,
                                 EvRecv (fd conn) 128 n (take (nat n) d)]"
      by (simp add: sent_a_def received_def log_def)
    with ev round_ok p show ?thesis
      by (simp add: process_a_loop_step [OF i(1)])
  qed (simp_all add: process_a_loop_step [OF i(1)] sent_a_def received_def log_def)
qed

lemma process_b_loop_alternates:
  "nat (MAX_ITERATIONS - i) = k \<Longrightarrow> list_all (delivers P) (recv_rets w) \<Longrightarrow>
   \<exists>ev. trace (snd (process_b_loop sock i w)) = trace w @ ev \<and> alternates_on P True ev"
proof (induction k arbitrary: i w)
  case 0
  then show ?case by (simp add: process_b_loop_done)
next
  case (Suc k)
  have i: "i < MAX_ITERATIONS" "nat (MAX_ITERATIONS - (i + 1)) = k"
    using Suc.prems(1) by auto
  show ?case
  proof (cases "recv_rets w")
    case Nil
    then show ?thesis by (simp add: process_b_loop_step [OF i(1)])
  next
    case (Cons x rr)
    obtain n d mem where x: "x = (n, d, mem)" by (cases x)
    show ?thesis
    proof (cases "0 < n \<and> terminated (n, d, mem)")
      case False
      with Cons x show ?thesis
        by (auto simp: process_b_loop_step [OF i(1)] received_def log_def)
    next
      case n: True
      then have p: "P n (take (nat n) d)"
        using Suc.prems(2) Cons x by simp
      show ?thesis
      proof (cases "send_rets w")
        case Nil
        with Cons x n p show ?thesis
          by (simp add: process_b_loop_step [OF i(1)] received_def log_def)
      next
        case s: (Cons r rs)
        show ?thesis
        proof (cases "r < 0")
          case True
          with Cons x n s p show ?thesis
            by (simp add: process_b_loop_step [OF i(1)] received_def sent_b_def log_def)
        next
          case False
          let ?w3 = "sent_b sock r rs (received sock n d rr w)"
          have rr: "list_all (delivers P) (recv_rets ?w3)"
            using Suc.prems(2) Cons by (simp add: received_def sent_b_def log_def)
          from Suc.IH [OF i(2) rr] obtain ev where
            ev: "trace (snd (process_b_loop sock (i + 1) ?w3)) = trace ?w3 @ ev"
              "alternates_on P True ev"
            by blast
          have "trace ?w3 = trace w @ [EvRecv (fd sock) 128 n (take (nat n) d), EvSleepFor,
                                       EvSend (fd sock) (''PONG'' @ [NUL]) r]"
            by (simp add: sent_b_def received_def log_def)
          with ev Cons x n s False p show ?thesis
            by (simp add: process_b_loop_step [OF i(1)])
        qed
      qed
    qed
  qed
qed

lemma alternates_on_weaken: "alternates_on P True ev \<Longrightarrow> alternates_on P False ev"
proof (induction ev)
  case Nil
  then show ?case by simp
next
  case (Cons e ev)
  then show ?case by (cases e) (auto split: if_splits)
qed

lemma delivers_returned_data: "list_all (delivers returned_data) xs"
  by (induction xs) (auto simp: returned_data_def)

subsection \<open>The events of completed rounds\<close>

lemma rounds_a_length: "length ss = length rr \<Longrightarrow> length (rounds_a conn ss rr) = 3 * length ss"
  by (induction conn ss rr rule: rounds_a.induct) auto

lemma rounds_a_sends:
  "length ss = length rr \<Longrightarrow> length (filter is_send (rounds_a conn ss rr)) = length ss"
  by (induction conn ss rr rule: rounds_a.induct) auto

lemma rounds_a_recvs:
  "length ss = length rr \<Longrightarrow> length (filter is_recv (rounds_a conn ss rr)) = length ss"
  by (induction conn ss rr rule: rounds_a.induct) auto

lemma rounds_a_nth:
  "length ss = length rr \<Longrightarrow> k < length ss \<Longrightarrow>
   rounds_a conn ss rr ! (3 * k) = EvSleepFor \<and>
   rounds_a conn ss rr ! (3 * k + 1) = EvSend (fd conn) (''PING'' @ [NUL]) (ss ! k) \<and>
   rounds_a conn ss rr ! (3 * k + 2) =
     EvRecv (fd conn) 128 (fst (rr ! k)) (take (nat (fst (rr ! k))) (fst (snd (rr ! k))))"
proof (induction conn ss rr arbitrary: k rule: rounds_a.induct)
  case (1 conn s ss n d mem rr)
  then show ?case by (cases k) auto
qed auto

lemma rounds_b_length: "length ss = length rr \<Longrightarrow> length (rounds_b sock ss rr) = 3 * length ss"
  by (induction sock ss rr rule: rounds_b.induct) auto

lemma rounds_b_sends:
  "length ss = length rr \<Longrightarrow> length (filter is_send (rounds_b sock ss rr)) = length ss"
  by (induction sock ss rr rule: rounds_b.induct) auto

lemma rounds_b_recvs:
  "length ss = length rr \<Longrightarrow> length (filter is_recv (rounds_b sock ss rr)) = length ss"
  by (induction sock ss rr rule: rounds_b.induct) auto

lemma rounds_b_nth:
  "length ss = length rr \<Longrightarrow> k < length ss \<Longrightarrow>
   rounds_b sock ss rr ! (3 * k) =
     EvRecv (fd sock) 128 (fst (rr ! k)) (take (nat (fst (rr ! k))) (fst (snd (rr ! k)))) \<and>
   rounds_b sock ss rr ! (3 * k + 1) = EvSleepFor \<and>
   rounds_b sock ss rr ! (3 * k + 2) = EvSend (fd sock) (''PONG'' @ [NUL]) (ss ! k)"
proof (induction sock ss rr arbitrary: k rule: rounds_b.induct)
  case (1 sock s ss n d mem rr)
  then show ?case by (cases k) auto
qed auto

lemma answered_nth:
  "answered k w \<Longrightarrow> j < k \<Longrightarrow> 0 \<le> take k (send_rets w) ! j \<and> 0 < fst (take k (recv_rets w) ! j)"
  by (simp add: answered_def list_all_length)

lemma answered_lengths:
  "answered k w \<Longrightarrow> length (take k (send_rets w)) = k \<and> length (take k (recv_rets w)) = k"
  by (simp add: answered_def)

subsection \<open>The messages in completed rounds\<close>

lemma split_messages_text:
  "NUL \<notin> set m \<Longrightarrow> split_messages acc (m @ NUL # rest) = (rev acc @ m) # split_messages [] rest"
  by (induction m arbitrary: acc) auto

lemma whole_message_stored:
  "whole_message (n, d, mem) \<Longrightarrow> take (nat n) d = text_of (n, d, mem) @ [NUL] \<and>
     NUL \<notin> set (text_of (n, d, mem))"
proof -
  assume w: "whole_message (n, d, mem)"
  then have "d \<noteq> []" by simp
  then have "butlast d @ [last d] = d" by (rule append_butlast_last_id)
  with w show ?thesis by simp
qed

lemma messages_whole:
  "list_all whole_message rr \<Longrightarrow>
   messages (concat (map (\<lambda>x. take (nat (fst x)) (fst (snd x))) rr)) = map text_of rr"
proof (induction rr)
  case Nil
  then show ?case by (simp add: messages_def)
next
  case (Cons x rr)
  obtain n d mem where x: "x = (n, d, mem)" by (cases x)
  from Cons.prems x whole_message_stored [of n d mem]
  have s: "take (nat n) d = text_of (n, d, mem) @ [NUL]" "NUL \<notin> set (text_of (n, d, mem))"
    by simp_all
  from Cons have "split_messages [] (concat (map (\<lambda>x. take (nat (fst x)) (fst (snd x))) rr)) = map text_of rr"
    by (simp add: messages_def)
  with x s(1) split_messages_text [OF s(2), of "[]"] show ?case
    by (simp add: messages_def del: text_of.simps)
qed

lemma delivered_rounds_a:
  "length ss = length rr \<Longrightarrow>
   delivered (rounds_a conn ss rr) = concat (map (\<lambda>x. take (nat (fst x)) (fst (snd x))) rr)"
  by (induction conn ss rr rule: rounds_a.induct) (auto simp: delivered_def)

lemma delivered_rounds_b:
  "length ss = length rr \<Longrightarrow>
   delivered (rounds_b sock ss rr) = concat (map (\<lambda>x. take (nat (fst x)) (fst (snd x))) rr)"
  by (induction sock ss rr rule: rounds_b.induct) (auto simp: delivered_def)

subsection \<open>C1: the rounds of the Initiator\<close>

lemma process_a_returned_iff: "fst (process_a conn w) = Returned () \<longleftrightarrow> answered 6 w"
  using process_a_loop_returned [of 0 6 conn w] process_a_loop_answered [of 0 6 w conn]
  by (auto simp: process_a_def MAX_ITERATIONS_def)

lemma process_a_events:
  "answered 6 w \<Longrightarrow>
   events_of w (snd (process_a conn w)) = rounds_a conn (take 6 (send_rets w)) (take 6 (recv_rets w))"
  using process_a_loop_answered [of 0 6 w conn]
  by (simp add: process_a_def MAX_ITERATIONS_def events_of_def)

lemma replicate_6: "replicate 6 x = [x, x, x, x, x, x]"
  by (simp add: numeral_eq_Suc)

lemma terminated_zeros: "n < 128 \<Longrightarrow> terminated (n, d, zeros)"
  by (simp add: terminated.simps buf_after_def zeros_def)

lemma terminated_data: "NUL \<in> set (take (nat n) d) \<Longrightarrow> terminated (n, d, mem)"
  by (simp add: terminated.simps buf_after_def)

text \<open>
  C1, as the code has it. A run of \<open>process_a\<close> that returns has made exactly six sends,
  each of five bytes (\<open>"PING"\<close> and its terminator), and exactly six calls of \<open>recv\<close>,
  each of which returned at least one byte; the events come in rounds of three (the pause,
  the send, the receive), so the receive of round \<open>k\<close> follows the send of round \<open>k\<close>
  and precedes the send of round \<open>k + 1\<close>. The run returns exactly when the system answers
  the first six sends with a value that is not negative and the first six receives with a
  positive one, each leaving a terminator in the array. It is the calls that are counted:
  when each of the six reads delivers exactly one message, the messages received are these
  six.
\<close>

theorem process_a_six_rounds:
  "(fst (process_a conn w) = Returned () \<longleftrightarrow> answered 6 w) \<and>
   (fst (process_a conn w) = Returned () \<longrightarrow>
      (let ev = events_of w (snd (process_a conn w))
       in length ev = 18 \<and> length (filter is_send ev) = 6 \<and> length (filter is_recv ev) = 6 \<and>
          (\<forall>k<6. \<exists>r n d. 0 \<le> r \<and> 0 < n \<and>
                   ev ! (3 * k + 1) = EvSend (fd conn) (''PING'' @ [NUL]) r \<and>
                   ev ! (3 * k + 2) = EvRecv (fd conn) 128 n d) \<and>
          (list_all whole_message (take 6 (recv_rets w)) \<longrightarrow>
             messages (delivered ev) = map text_of (take 6 (recv_rets w)) \<and>
             length (messages (delivered ev)) = 6)))"
proof (intro conjI impI)
  show "fst (process_a conn w) = Returned () \<longleftrightarrow> answered 6 w"
    by (rule process_a_returned_iff)
next
  assume "fst (process_a conn w) = Returned ()"
  then have a: "answered 6 w" by (simp add: process_a_returned_iff)
  let ?ss = "take 6 (send_rets w)" and ?rr = "take 6 (recv_rets w)"
  have l: "length ?ss = 6" "length ?rr = 6" using answered_lengths [OF a] by simp_all
  have ev: "events_of w (snd (process_a conn w)) = rounds_a conn ?ss ?rr"
    by (rule process_a_events [OF a])
  have n: "\<exists>r n d. 0 \<le> r \<and> 0 < n \<and>
                   rounds_a conn ?ss ?rr ! (3 * k + 1) = EvSend (fd conn) (''PING'' @ [NUL]) r \<and>
                   rounds_a conn ?ss ?rr ! (3 * k + 2) = EvRecv (fd conn) 128 n d" if "k < 6" for k
    using rounds_a_nth [of ?ss ?rr k conn] answered_nth [OF a that] l that by auto
  have m: "messages (delivered (rounds_a conn ?ss ?rr)) = map text_of ?rr"
    if "list_all whole_message ?rr"
    using that l by (simp add: delivered_rounds_a messages_whole)
  show "let ev = events_of w (snd (process_a conn w))
       in length ev = 18 \<and> length (filter is_send ev) = 6 \<and> length (filter is_recv ev) = 6 \<and>
          (\<forall>k<6. \<exists>r n d. 0 \<le> r \<and> 0 < n \<and>
                   ev ! (3 * k + 1) = EvSend (fd conn) (''PING'' @ [NUL]) r \<and>
                   ev ! (3 * k + 2) = EvRecv (fd conn) 128 n d) \<and>
          (list_all whole_message (take 6 (recv_rets w)) \<longrightarrow>
             messages (delivered ev) = map text_of (take 6 (recv_rets w)) \<and>
             length (messages (delivered ev)) = 6)"
    unfolding Let_def ev
    using n l m by (simp add: rounds_a_length rounds_a_sends rounds_a_recvs)
qed

lemma answered_initiator_world: "answered 6 initiator_world"
  by (simp add: answered_def initiator_world_def quiet_def list_all_iff terminated_data)

theorem process_a_six_rounds_witness:
  "fst (process_a \<lparr>fd = 4\<rparr> initiator_world) = Returned () \<and>
   length (filter is_send (events_of initiator_world (snd (process_a \<lparr>fd = 4\<rparr> initiator_world)))) = 6 \<and>
   length (filter is_recv (events_of initiator_world (snd (process_a \<lparr>fd = 4\<rparr> initiator_world)))) = 6 \<and>
   messages (delivered (events_of initiator_world (snd (process_a \<lparr>fd = 4\<rparr> initiator_world)))) =
     [''PONG'', ''PONG'', ''PONG'', ''PONG'', ''PONG'', ''PONG'']"
proof -
  have w: "list_all whole_message (take 6 (recv_rets initiator_world))"
    by (simp add: initiator_world_def quiet_def list_all_iff NUL_def)
  show ?thesis
    using process_a_six_rounds [of "\<lparr>fd = 4\<rparr>" initiator_world] answered_initiator_world w
    by (simp add: Let_def) (simp add: initiator_world_def quiet_def replicate_6)
qed

lemma answered_initiator_fragments: "answered 6 initiator_fragments_world"
  by (simp add: answered_def initiator_fragments_world_def quiet_def fragments_def replicate_6
        terminated_zeros terminated_data)

lemma events_initiator_fragments:
  "events_of initiator_fragments_world (snd (process_a \<lparr>fd = 4\<rparr> initiator_fragments_world)) =
     [EvSleepFor, EvSend 4 (''PING'' @ [NUL]) 5, EvRecv 4 128 2 ''PO'',
      EvSleepFor, EvSend 4 (''PING'' @ [NUL]) 5, EvRecv 4 128 3 (''NG'' @ [NUL]),
      EvSleepFor, EvSend 4 (''PING'' @ [NUL]) 5, EvRecv 4 128 2 ''PO'',
      EvSleepFor, EvSend 4 (''PING'' @ [NUL]) 5, EvRecv 4 128 3 (''NG'' @ [NUL]),
      EvSleepFor, EvSend 4 (''PING'' @ [NUL]) 5, EvRecv 4 128 2 ''PO'',
      EvSleepFor, EvSend 4 (''PING'' @ [NUL]) 5, EvRecv 4 128 3 (''NG'' @ [NUL])]"
  by (simp add: process_a_events [OF answered_initiator_fragments])
     (simp add: initiator_fragments_world_def quiet_def fragments_def replicate_6)

text \<open>
  C1, as stated, fails. When each acknowledge comes in two reads, of two and of three
  bytes, the run returns after six sends and six receives, and the bytes it has received
  are three acknowledge messages, not six.
\<close>

theorem process_a_fragments_counterexample:
  "fst (process_a \<lparr>fd = 4\<rparr> initiator_fragments_world) = Returned () \<and>
   length (filter is_send
     (events_of initiator_fragments_world (snd (process_a \<lparr>fd = 4\<rparr> initiator_fragments_world)))) = 6 \<and>
   messages (delivered
     (events_of initiator_fragments_world (snd (process_a \<lparr>fd = 4\<rparr> initiator_fragments_world)))) =
     [''PONG'', ''PONG'', ''PONG'']"
  using answered_initiator_fragments
  by (simp add: process_a_returned_iff events_initiator_fragments)
     (simp add: delivered_def messages_def NUL_def)

subsection \<open>C2: the rounds of the Responder\<close>

lemma answered_dialled [simp]: "answered k (dialled r rs w) = answered k w"
  by (simp add: answered_def dialled_def)

lemma process_b_dialled:
  "socket_rets w = r # rs \<Longrightarrow> 0 \<le> r \<Longrightarrow> 0 < inet_pton_ret w \<Longrightarrow> 0 \<le> connect_ret w \<Longrightarrow>
   process_b w =
     (case process_b_loop \<lparr>fd = r\<rparr> 0 (dialled r rs w) of
        (Blocked, w5) \<Rightarrow> (Blocked, w5)
      | (Killed, w5) \<Rightarrow> (Killed, w5)
      | (Undefined, w5) \<Rightarrow> (Undefined, w5)
      | (Thrown e, w5) \<Rightarrow> (Thrown e, log (EvClose r) w5)
      | (Returned u, w5) \<Rightarrow> (Returned (), log (EvClose r) w5))"
  by (simp add: process_b_def sys_socket_def Socket_ctor_def Socket_dtor_def Let_def log_def
        dialled_def split: prod.splits result.splits)

lemma process_b_not_dialled:
  "socket_rets w = [] \<Longrightarrow> process_b w = (Blocked, w)"
  "socket_rets w = r # rs \<Longrightarrow> r < 0 \<Longrightarrow>
     process_b w = (Thrown (runtime_error (''socket: '' @ errno_text w)),
                    w\<lparr>socket_rets := rs, trace := trace w @ [EvSocket r]\<rparr>)"
  "socket_rets w = r # rs \<Longrightarrow> 0 \<le> r \<Longrightarrow> inet_pton_ret w \<le> 0 \<Longrightarrow>
     process_b w = (Thrown (runtime_error (''inet_pton: '' @ errno_text w)),
                    w\<lparr>socket_rets := rs,
                      trace := trace w @ [EvSocket r, EvInetPton (inet_pton_ret w), EvClose r]\<rparr>)"
  "socket_rets w = r # rs \<Longrightarrow> 0 \<le> r \<Longrightarrow> 0 < inet_pton_ret w \<Longrightarrow> connect_ret w < 0 \<Longrightarrow>
     process_b w = (Thrown (runtime_error (''connect: '' @ errno_text w)),
                    log (EvClose r) (dialled r rs w))"
  by (simp_all add: process_b_def sys_socket_def Socket_ctor_def Socket_dtor_def Let_def log_def
        dialled_def sys_error_def)

lemma process_b_cases:
  obtains (no_socket) "socket_rets w = []"
  | (socket_failed) r rs where "socket_rets w = r # rs" "r < 0"
  | (pton_failed) r rs where "socket_rets w = r # rs" "0 \<le> r" "inet_pton_ret w \<le> 0"
  | (connect_failed) r rs where
      "socket_rets w = r # rs" "0 \<le> r" "0 < inet_pton_ret w" "connect_ret w < 0"
  | (connected) r rs where
      "socket_rets w = r # rs" "0 \<le> r" "0 < inet_pton_ret w" "0 \<le> connect_ret w"
proof (cases "socket_rets w")
  case Nil
  then show ?thesis by (rule no_socket)
next
  case (Cons r rs)
  then show ?thesis
    by (cases "r < 0"; cases "inet_pton_ret w \<le> 0"; cases "connect_ret w < 0")
       (auto intro: socket_failed pton_failed connect_failed connected)
qed

lemma process_b_returned_iff: "fst (process_b w) = Returned () \<longleftrightarrow> dial_ok w \<and> answered 6 w"
proof (cases w rule: process_b_cases)
  case (connected r rs)
  then show ?thesis
    using process_b_loop_returned [of 0 6 "\<lparr>fd = r\<rparr>" "dialled r rs w"]
      process_b_loop_answered [of 0 6 "dialled r rs w" "\<lparr>fd = r\<rparr>"]
    by (auto simp: process_b_dialled dial_ok_def MAX_ITERATIONS_def split: prod.splits result.splits)
qed (simp_all add: process_b_not_dialled dial_ok_def)

lemma process_b_events:
  "socket_rets w = r # rs \<Longrightarrow> dial_ok w \<Longrightarrow> answered 6 w \<Longrightarrow>
   events_of w (snd (process_b w)) =
     [EvSocket r, EvInetPton (inet_pton_ret w), EvSleep, EvConnect r (connect_ret w)]
     @ rounds_b \<lparr>fd = r\<rparr> (take 6 (send_rets w)) (take 6 (recv_rets w)) @ [EvClose r]"
  using process_b_loop_answered [of 0 6 "dialled r rs w" "\<lparr>fd = r\<rparr>"]
  by (simp add: process_b_dialled dial_ok_def MAX_ITERATIONS_def events_of_def log_def)
     (simp add: dialled_def)

text \<open>
  C2, as the code has it. A run of \<open>process_b\<close> that returns has made exactly six calls
  of \<open>recv\<close>, each of which returned at least one byte, and exactly six sends, each of
  five bytes (\<open>"PONG"\<close> and its terminator). After the four events of the dial, the events
  come in rounds of three (the receive, the pause, the send), so the send of round \<open>k\<close>
  follows the receive of round \<open>k\<close>. The run returns exactly when the dial succeeds and
  the system answers the first six receives with a positive value, each leaving a
  terminator in the array, and the first six sends with a value that is not negative. It
  is the calls that are counted: when each of the six reads delivers exactly one message,
  the messages received are these six.
\<close>

theorem process_b_six_rounds:
  "(fst (process_b w) = Returned () \<longleftrightarrow> dial_ok w \<and> answered 6 w) \<and>
   (fst (process_b w) = Returned () \<longrightarrow>
      (\<exists>s rs. socket_rets w = s # rs \<and>
         (let ev = events_of w (snd (process_b w))
          in length ev = 23 \<and> length (filter is_send ev) = 6 \<and> length (filter is_recv ev) = 6 \<and>
             (\<forall>k<6. \<exists>r n d. 0 \<le> r \<and> 0 < n \<and>
                      ev ! (3 * k + 4) = EvRecv s 128 n d \<and>
                      ev ! (3 * k + 6) = EvSend s (''PONG'' @ [NUL]) r) \<and>
             (list_all whole_message (take 6 (recv_rets w)) \<longrightarrow>
                messages (delivered ev) = map text_of (take 6 (recv_rets w)) \<and>
                length (messages (delivered ev)) = 6))))"
proof (intro conjI impI)
  show "fst (process_b w) = Returned () \<longleftrightarrow> dial_ok w \<and> answered 6 w"
    by (rule process_b_returned_iff)
next
  assume "fst (process_b w) = Returned ()"
  then have d: "dial_ok w" and a: "answered 6 w" by (simp_all add: process_b_returned_iff)
  from d obtain s rs where s: "socket_rets w = s # rs"
    by (auto simp: dial_ok_def split: list.splits)
  let ?ss = "take 6 (send_rets w)" and ?rr = "take 6 (recv_rets w)"
  let ?pre = "[EvSocket s, EvInetPton (inet_pton_ret w), EvSleep, EvConnect s (connect_ret w)]"
  have l: "length ?ss = 6" "length ?rr = 6" using answered_lengths [OF a] by simp_all
  have ev: "events_of w (snd (process_b w)) = ?pre @ rounds_b \<lparr>fd = s\<rparr> ?ss ?rr @ [EvClose s]"
    by (rule process_b_events [OF s d a])
  have lr: "length (rounds_b \<lparr>fd = s\<rparr> ?ss ?rr) = 18"
    using l by (simp add: rounds_b_length)
  have n: "\<exists>r n d. 0 \<le> r \<and> 0 < n \<and>
             (?pre @ rounds_b \<lparr>fd = s\<rparr> ?ss ?rr @ [EvClose s]) ! (3 * k + 4) = EvRecv s 128 n d \<and>
             (?pre @ rounds_b \<lparr>fd = s\<rparr> ?ss ?rr @ [EvClose s]) ! (3 * k + 6) = EvSend s (''PONG'' @ [NUL]) r"
    if "k < 6" for k
  proof -
    have "(?pre @ rounds_b \<lparr>fd = s\<rparr> ?ss ?rr @ [EvClose s]) ! (3 * k + 4) = rounds_b \<lparr>fd = s\<rparr> ?ss ?rr ! (3 * k)"
      "(?pre @ rounds_b \<lparr>fd = s\<rparr> ?ss ?rr @ [EvClose s]) ! (3 * k + 6) = rounds_b \<lparr>fd = s\<rparr> ?ss ?rr ! (3 * k + 2)"
      using lr that by (simp_all add: nth_append numeral_eq_Suc)
    then show ?thesis
      using rounds_b_nth [of ?ss ?rr k "\<lparr>fd = s\<rparr>"] answered_nth [OF a that] l that by auto
  qed
  have m: "messages (delivered (?pre @ rounds_b \<lparr>fd = s\<rparr> ?ss ?rr @ [EvClose s])) = map text_of ?rr"
    if "list_all whole_message ?rr"
  proof -
    have "delivered (?pre @ rounds_b \<lparr>fd = s\<rparr> ?ss ?rr @ [EvClose s]) =
        delivered (rounds_b \<lparr>fd = s\<rparr> ?ss ?rr)"
      by (simp add: delivered_def)
    also have "\<dots> = concat (map (\<lambda>x. take (nat (fst x)) (fst (snd x))) ?rr)"
      using l by (intro delivered_rounds_b) simp
    finally show ?thesis
      using that by (simp only: messages_whole)
  qed
  have "let ev = events_of w (snd (process_b w))
       in length ev = 23 \<and> length (filter is_send ev) = 6 \<and> length (filter is_recv ev) = 6 \<and>
          (\<forall>k<6. \<exists>r n d. 0 \<le> r \<and> 0 < n \<and>
                   ev ! (3 * k + 4) = EvRecv s 128 n d \<and>
                   ev ! (3 * k + 6) = EvSend s (''PONG'' @ [NUL]) r) \<and>
          (list_all whole_message (take 6 (recv_rets w)) \<longrightarrow>
             messages (delivered ev) = map text_of (take 6 (recv_rets w)) \<and>
             length (messages (delivered ev)) = 6)"
    unfolding Let_def ev
    using n l lr m by (simp add: rounds_b_sends rounds_b_recvs)
  with s show "\<exists>s rs. socket_rets w = s # rs \<and>
         (let ev = events_of w (snd (process_b w))
          in length ev = 23 \<and> length (filter is_send ev) = 6 \<and> length (filter is_recv ev) = 6 \<and>
             (\<forall>k<6. \<exists>r n d. 0 \<le> r \<and> 0 < n \<and>
                      ev ! (3 * k + 4) = EvRecv s 128 n d \<and>
                      ev ! (3 * k + 6) = EvSend s (''PONG'' @ [NUL]) r) \<and>
             (list_all whole_message (take 6 (recv_rets w)) \<longrightarrow>
                messages (delivered ev) = map text_of (take 6 (recv_rets w)) \<and>
                length (messages (delivered ev)) = 6))"
    by blast
qed

lemma answered_responder_world: "dial_ok responder_world \<and> answered 6 responder_world"
  by (simp add: answered_def dial_ok_def responder_world_def quiet_def list_all_iff terminated_data)

theorem process_b_six_rounds_witness:
  "fst (process_b responder_world) = Returned () \<and>
   length (filter is_send (events_of responder_world (snd (process_b responder_world)))) = 6 \<and>
   length (filter is_recv (events_of responder_world (snd (process_b responder_world)))) = 6 \<and>
   messages (delivered (events_of responder_world (snd (process_b responder_world)))) =
     [''PING'', ''PING'', ''PING'', ''PING'', ''PING'', ''PING'']"
proof -
  have w: "list_all whole_message (take 6 (recv_rets responder_world))"
    by (simp add: responder_world_def quiet_def list_all_iff NUL_def)
  have t: "map text_of (take 6 (recv_rets responder_world)) =
      [''PING'', ''PING'', ''PING'', ''PING'', ''PING'', ''PING'']"
    by (simp add: responder_world_def quiet_def replicate_6)
  show ?thesis
    using process_b_six_rounds [of responder_world] answered_responder_world w t
    by (auto simp: Let_def)
qed

lemma answered_responder_fragments:
  "dial_ok responder_fragments_world \<and> answered 6 responder_fragments_world"
  by (simp add: answered_def dial_ok_def responder_fragments_world_def quiet_def fragments_def
        replicate_6 terminated_zeros terminated_data)

lemma socket_responder_fragments: "socket_rets responder_fragments_world = [4]"
  by (simp add: responder_fragments_world_def quiet_def)

lemma events_responder_fragments:
  "events_of responder_fragments_world (snd (process_b responder_fragments_world)) =
     [EvSocket 4, EvInetPton 1, EvSleep, EvConnect 4 0,
      EvRecv 4 128 2 ''PI'', EvSleepFor, EvSend 4 (''PONG'' @ [NUL]) 5,
      EvRecv 4 128 3 (''NG'' @ [NUL]), EvSleepFor, EvSend 4 (''PONG'' @ [NUL]) 5,
      EvRecv 4 128 2 ''PI'', EvSleepFor, EvSend 4 (''PONG'' @ [NUL]) 5,
      EvRecv 4 128 3 (''NG'' @ [NUL]), EvSleepFor, EvSend 4 (''PONG'' @ [NUL]) 5,
      EvRecv 4 128 2 ''PI'', EvSleepFor, EvSend 4 (''PONG'' @ [NUL]) 5,
      EvRecv 4 128 3 (''NG'' @ [NUL]), EvSleepFor, EvSend 4 (''PONG'' @ [NUL]) 5,
      EvClose 4]"
  using answered_responder_fragments
  by (simp add: process_b_events [OF socket_responder_fragments])
     (simp add: responder_fragments_world_def quiet_def fragments_def replicate_6)

text \<open>
  C2, as stated, fails. When each trigger comes in two reads, of two and of three bytes,
  the run returns after six receives and six sends of \<open>"PONG"\<close>, and the bytes it has
  received are three trigger messages, not six: the second acknowledge is sent after the
  rest of the first trigger, before a second trigger is there.
\<close>

theorem process_b_fragments_counterexample:
  "fst (process_b responder_fragments_world) = Returned () \<and>
   length (filter is_send
     (events_of responder_fragments_world (snd (process_b responder_fragments_world)))) = 6 \<and>
   messages (delivered
     (events_of responder_fragments_world (snd (process_b responder_fragments_world)))) =
     [''PING'', ''PING'', ''PING'']"
  using answered_responder_fragments
  by (simp add: process_b_returned_iff events_responder_fragments)
     (simp add: delivered_def messages_def NUL_def)

subsection \<open>C3: alternation of sends and receives\<close>

lemma alternates_on_snoc_close: "alternates_on P p (ev @ [EvClose r]) = alternates_on P p ev"
proof (induction ev arbitrary: p)
  case Nil
  then show ?case by simp
next
  case (Cons e ev)
  then show ?case by (cases e) simp_all
qed

lemma process_b_alternates:
  assumes "list_all (delivers P) (recv_rets w)"
  shows "\<exists>ev. trace (snd (process_b w)) = trace w @ ev \<and> alternates_on P True ev"
proof (cases w rule: process_b_cases)
  case (connected r rs)
  have "list_all (delivers P) (recv_rets (dialled r rs w))"
    using assms by (simp add: dialled_def)
  from process_b_loop_alternates [OF _ this, of 0 6 "\<lparr>fd = r\<rparr>"] obtain ev where
    ev: "trace (snd (process_b_loop \<lparr>fd = r\<rparr> 0 (dialled r rs w))) = trace (dialled r rs w) @ ev"
      "alternates_on P True ev"
    by (auto simp: MAX_ITERATIONS_def)
  obtain res w5 where l: "process_b_loop \<lparr>fd = r\<rparr> 0 (dialled r rs w) = (res, w5)"
    by (cases "process_b_loop \<lparr>fd = r\<rparr> 0 (dialled r rs w)")
  with ev have t: "trace w5 = trace w @ [EvSocket r, EvInetPton (inet_pton_ret w), EvSleep,
                           EvConnect r (connect_ret w)] @ ev"
    by (simp add: dialled_def)
  show ?thesis
    using connected l t ev(2)
    by (cases res) (simp_all add: process_b_dialled log_def alternates_on_snoc_close)
qed (simp_all add: process_b_not_dialled dialled_def log_def)

lemma process_a_alternates:
  assumes "list_all (delivers P) (recv_rets w)"
  shows "alternates_on P False (events_of w (snd (process_a conn w)))"
proof -
  from process_a_loop_alternates [OF _ assms, of 0 6 conn] obtain ev where
    "trace (snd (process_a conn w)) = trace w @ ev" "alternates_on P False ev"
    by (auto simp: MAX_ITERATIONS_def process_a_def)
  then show ?thesis by (simp add: events_of_def)
qed

lemma process_b_alternates_events:
  assumes "list_all (delivers P) (recv_rets w)"
  shows "alternates_on P True (events_of w (snd (process_b w)))"
proof -
  from process_b_alternates [OF assms] obtain ev where
    "trace (snd (process_b w)) = trace w @ ev" "alternates_on P True ev"
    by blast
  then show ?thesis by (simp add: events_of_def)
qed

text \<open>
  C3, as the code has it. In every run of either role, whatever its end, no send is made
  while an earlier send of the role is still unanswered by a call of \<open>recv\<close> of that role
  that returned at least one byte; for the Responder the first send too follows such a
  call. The bytes of the call are not looked at: when every read that returns bytes
  delivers the terminator of a message among them, each send is answered by the end of a
  message before the next send is made. The statement is about each role and the results
  its own calls get; the result of a receive is all a role takes from outside between two
  sends.
\<close>

theorem roles_alternate:
  "alternates_on returned_data False (events_of w (snd (process_a conn w))) \<and>
   alternates_on returned_data True (events_of w (snd (process_b w))) \<and>
   alternates_on returned_data False (events_of w (snd (process_b w))) \<and>
   (list_all (delivers ended_message) (recv_rets w) \<longrightarrow>
      alternates_on ended_message False (events_of w (snd (process_a conn w))) \<and>
      alternates_on ended_message True (events_of w (snd (process_b w))) \<and>
      alternates_on ended_message False (events_of w (snd (process_b w))))"
  using process_a_alternates [OF delivers_returned_data, of w conn]
    process_b_alternates_events [OF delivers_returned_data, of w]
    process_a_alternates [of ended_message w conn]
    process_b_alternates_events [of ended_message w]
  by (auto intro: alternates_on_weaken)

theorem roles_alternate_witness:
  "list_all (delivers ended_message) (recv_rets initiator_world) \<and>
   alternates_on ended_message False
     (events_of initiator_world (snd (process_a \<lparr>fd = 4\<rparr> initiator_world))) \<and>
   list_all (delivers ended_message) (recv_rets responder_world) \<and>
   alternates_on ended_message True (events_of responder_world (snd (process_b responder_world)))"
proof -
  have "list_all (delivers ended_message) (recv_rets initiator_world)"
    "list_all (delivers ended_message) (recv_rets responder_world)"
    by (simp_all add: initiator_world_def responder_world_def quiet_def list_all_iff
          ended_message_def)
  then show ?thesis
    using roles_alternate [of initiator_world "\<lparr>fd = 4\<rparr>"] roles_alternate [of responder_world]
    by simp
qed

text \<open>
  C3, as stated, fails. When each acknowledge comes in two reads, the Initiator sends its
  second trigger after a receive of the two bytes \<open>"PO"\<close>: no acknowledge has been
  received since the first trigger. It sends six triggers and receives three acknowledges.
\<close>

theorem roles_alternate_counterexample:
  "\<not> alternates_on ended_message False
       (events_of initiator_fragments_world (snd (process_a \<lparr>fd = 4\<rparr> initiator_fragments_world))) \<and>
   take 5 (events_of initiator_fragments_world (snd (process_a \<lparr>fd = 4\<rparr> initiator_fragments_world))) =
     [EvSleepFor, EvSend 4 (''PING'' @ [NUL]) 5, EvRecv 4 128 2 ''PO'',
      EvSleepFor, EvSend 4 (''PING'' @ [NUL]) 5]"
  by (simp add: events_initiator_fragments ended_message_def NUL_def)

subsection \<open>C5: receiving a message\<close>

text \<open>
  C5, as the code has it. A call of \<open>recv_str\<close> stays blocked while the system delivers
  nothing. When the bytes stored by its one read start with a whole message, the text and
  its terminator, the call returns exactly the text, without the terminator. (It does not
  wait for a terminator that the read did not deliver.)
\<close>

theorem recv_str_whole_message:
  "(recv_rets w = [] \<longrightarrow> recv_str this w = (Blocked, w)) \<and>
   (recv_rets w = (int (length (msg @ NUL # rest)), msg @ NUL # rest, mem) # rs \<and> NUL \<notin> set msg \<longrightarrow>
      recv_str this w =
        (Returned msg,
         log (EvRecv (fd this) 128 (int (length (msg @ NUL # rest))) (msg @ NUL # rest))
             (w\<lparr>recv_rets := rs\<rparr>)))"
proof (intro conjI impI)
  assume "recv_rets w = []"
  then show "recv_str this w = (Blocked, w)" by (rule recv_str_blocked)
next
  assume a: "recv_rets w = (int (length (msg @ NUL # rest)), msg @ NUL # rest, mem) # rs \<and> NUL \<notin> set msg"
  then show "recv_str this w =
        (Returned msg,
         log (EvRecv (fd this) 128 (int (length (msg @ NUL # rest))) (msg @ NUL # rest))
             (w\<lparr>recv_rets := rs\<rparr>))"
    by (simp add: recv_str_def buf_after_def c_str_message)
qed

theorem recv_str_whole_message_witness:
  "recv_str \<lparr>fd = 4\<rparr> joined_world =
     (Returned ''PONG'',
      log (EvRecv 4 128 10 (''PONG'' @ [NUL] @ ''PING'' @ [NUL])) (joined_world\<lparr>recv_rets := []\<rparr>)) \<and>
   recv_str \<lparr>fd = 4\<rparr> quiet = (Blocked, quiet)"
  using recv_str_whole_message [where w = joined_world and msg = "''PONG''" and rest = "''PING'' @ [NUL]"
      and mem = zeros and rs = "[]" and this = "\<lparr>fd = 4\<rparr>"]
    recv_str_whole_message [where w = quiet and this = "\<lparr>fd = 4\<rparr>"]
  by (simp add: joined_world_def quiet_def NUL_def)

text \<open>
  C5, as stated, fails: when the four bytes of \<open>"PING"\<close> and the terminator come in
  two reads, of two and of three bytes, over a zeroed buffer, the first call returns
  \<open>"PI"\<close> with success, and the terminator is still to be read.
\<close>

theorem recv_str_split_counterexample:
  "fst (recv_str \<lparr>fd = 4\<rparr> split_world) = Returned ''PI'' \<and>
   fst (recv_str \<lparr>fd = 4\<rparr> split_world) \<noteq> Returned ''PING'' \<and>
   recv_rets (snd (recv_str \<lparr>fd = 4\<rparr> split_world)) = [(3, ''NG'' @ [NUL], zeros)]"
  by (simp add: recv_str_def buf_after_def split_world_def quiet_def log_def c_str_def zeros_def
        NUL_def)

subsection \<open>C6: failure of recv_str\<close>

lemma recv_str_thrown_iff:
  "(\<exists>e. fst (recv_str this w) = Thrown e) \<longleftrightarrow>
   (\<exists>n d mem rs. recv_rets w = (n, d, mem) # rs \<and> n \<le> 0)"
  by (auto simp: recv_str_def Let_def split: list.splits if_splits)

lemma recv_str_thrown_what:
  "fst (recv_str this w) = Thrown e \<Longrightarrow> e = runtime_error (''recv: '' @ errno_text w)"
  by (auto simp: recv_str_def Let_def sys_error_def log_def split: list.splits if_splits)

lemma errno_text_round_a [simp]:
  "errno_text (received conn n d rr (sent_a conn r rs w)) = errno_text w"
  by (simp add: received_def sent_a_def log_def)

lemma process_a_loop_peer_closed:
  "answered k w \<Longrightarrow> int k < MAX_ITERATIONS - i \<Longrightarrow>
   k < length (send_rets w) \<Longrightarrow> 0 \<le> send_rets w ! k \<Longrightarrow>
   k < length (recv_rets w) \<Longrightarrow> fst (recv_rets w ! k) \<le> 0 \<Longrightarrow>
   fst (process_a_loop conn i w) = Thrown (runtime_error (''recv: '' @ errno_text w))"
proof (induction k arbitrary: i w)
  case 0
  then show ?case
    by (cases "send_rets w"; cases "recv_rets w")
       (auto simp: process_a_loop_step split: prod.splits)
next
  case (Suc k)
  from Suc.prems(1) obtain r rs n d mem rr where
    s: "send_rets w = r # rs" "0 \<le> r" and v: "recv_rets w = (n, d, mem) # rr" "0 < n"
      "terminated (n, d, mem)"
    and a: "answered k (received conn n d rr (sent_a conn r rs w))"
    unfolding answered_Suc_a [where conn = conn] by blast
  let ?w3 = "received conn n d rr (sent_a conn r rs w)"
  have w3: "send_rets ?w3 = rs" "recv_rets ?w3 = rr"
    by (simp_all add: received_def sent_a_def log_def)
  have i: "i < MAX_ITERATIONS" "int k < MAX_ITERATIONS - (i + 1)"
    using Suc.prems(2) by auto
  have "fst (process_a_loop conn (i + 1) ?w3) = Thrown (runtime_error (''recv: '' @ errno_text ?w3))"
    using Suc.prems s v by (intro Suc.IH [OF a i(2)]) (simp_all add: w3)
  with s v show ?case
    by (simp add: process_a_loop_step [OF i(1)])
qed

text \<open>
  C6. \<open>recv_str\<close> throws exactly when its read returns zero (the peer has closed) or a
  negative value (the read is rejected), and what it throws is the runtime error of
  \<open>sys_error("recv")\<close>. In \<open>process_a\<close>: after \<open>k < 6\<close> completed rounds, when the next
  send is accepted and the next read returns zero or less, the role ends with that error;
  it neither returns nor stays blocked.
\<close>

theorem recv_str_fails_iff:
  "((\<exists>e. fst (recv_str this w) = Thrown e) \<longleftrightarrow>
      (\<exists>n d mem rs. recv_rets w = (n, d, mem) # rs \<and> n \<le> 0)) \<and>
   (\<forall>e. fst (recv_str this w) = Thrown e \<longrightarrow> e = runtime_error (''recv: '' @ errno_text w)) \<and>
   (answered k w \<and> k < 6 \<and> k < length (send_rets w) \<and> 0 \<le> send_rets w ! k \<and>
    k < length (recv_rets w) \<and> fst (recv_rets w ! k) \<le> 0 \<longrightarrow>
      fst (process_a conn w) = Thrown (runtime_error (''recv: '' @ errno_text w)))"
  using recv_str_thrown_iff [of this w] recv_str_thrown_what [of this w]
    process_a_loop_peer_closed [of k w 0 conn]
  by (auto simp: process_a_def MAX_ITERATIONS_def)

theorem recv_str_fails_iff_witness:
  "answered 2 closed_world \<and> fst (recv_rets closed_world ! 2) = 0 \<and>
   fst (process_a \<lparr>fd = 4\<rparr> closed_world) = Thrown (runtime_error ''recv: '') \<and>
   fst (recv_str \<lparr>fd = 4\<rparr> eof_world) = Thrown (runtime_error ''recv: '')"
proof -
  have "answered 2 closed_world"
    by (simp add: answered_def closed_world_def quiet_def terminated_data)
  moreover have "\<exists>e. fst (recv_str \<lparr>fd = 4\<rparr> eof_world) = Thrown e"
    using recv_str_fails_iff [where this = "\<lparr>fd = 4\<rparr>" and w = eof_world]
    by (simp add: eof_world_def quiet_def)
  ultimately show ?thesis
    using recv_str_fails_iff [where this = "\<lparr>fd = 4\<rparr>" and w = closed_world and k = 2
        and conn = "\<lparr>fd = 4\<rparr>"]
      recv_str_fails_iff [where this = "\<lparr>fd = 4\<rparr>" and w = eof_world]
    by (auto simp: closed_world_def eof_world_def quiet_def)
qed

subsection \<open>C9: the single read of recv_str\<close>

text \<open>
  C9. A call of \<open>recv_str\<close> makes one call of \<open>recv\<close>, with a buffer of 128 bytes, and
  no other. When that call stores \<open>n\<close> bytes, \<open>0 < n \<le> 128\<close>, the result is the bytes
  of the buffer before its first null byte. When the bytes stored contain a null byte, the
  bytes stored after it are not returned (and are gone with the buffer). When they contain
  none, the result goes on with what the rest of the buffer held before the call, which
  the code never initialised, up to the first null byte there; and when the whole buffer
  holds no null byte the read leaves the buffer, which is undefined behaviour.
\<close>

theorem recv_str_one_read:
  assumes "recv_rets w = (n, d, mem) # rs"
  shows "events_of w (snd (recv_str this w)) = [EvRecv (fd this) 128 n (take (nat n) d)] \<and>
         recv_rets (snd (recv_str this w)) = rs \<and>
         (0 < n \<and> n \<le> 128 \<and> length d = nat n \<longrightarrow>
            (\<forall>pre post. d = pre @ NUL # post \<and> NUL \<notin> set pre \<longrightarrow>
               fst (recv_str this w) = Returned pre) \<and>
            (NUL \<notin> set d \<and> NUL \<in> set (drop (nat n) (take 128 mem)) \<longrightarrow>
               fst (recv_str this w) = Returned (d @ c_str (drop (nat n) (take 128 mem)))) \<and>
            (NUL \<notin> set d \<and> NUL \<notin> set (drop (nat n) (take 128 mem)) \<longrightarrow>
               fst (recv_str this w) = Undefined))"
proof -
  have e: "events_of w (snd (recv_str this w)) = [EvRecv (fd this) 128 n (take (nat n) d)]"
    "recv_rets (snd (recv_str this w)) = rs"
    using assms by (simp_all add: recv_str_def Let_def log_def events_of_def)
  let ?rest = "drop (nat n) (take 128 mem)"
  have c: "fst (recv_str this w) =
      (if NUL \<in> set (d @ ?rest) then Returned (c_str (d @ ?rest)) else Undefined)"
    if "0 < n" "length d = nat n"
    using assms that by (simp add: recv_str_def buf_after_def)
  have p: "fst (recv_str this w) = Returned pre"
    if "0 < n" "length d = nat n" "d = pre @ NUL # post" "NUL \<notin> set pre" for pre post
    using c [OF that(1,2)] that(3,4) c_str_message [of pre "post @ ?rest"] by simp
  have u: "fst (recv_str this w) = Returned (d @ c_str ?rest)"
    if "0 < n" "length d = nat n" "NUL \<notin> set d" "NUL \<in> set ?rest"
    using c [OF that(1,2)] that(3,4) by (simp add: c_str_no_null)
  have o: "fst (recv_str this w) = Undefined"
    if "0 < n" "length d = nat n" "NUL \<notin> set d" "NUL \<notin> set ?rest"
    using c [OF that(1,2)] that(3,4) by simp
  from e p u o show ?thesis by blast
qed

theorem recv_str_one_read_witness:
  "fst (recv_str \<lparr>fd = 4\<rparr> joined_world) = Returned ''PONG'' \<and>
   recv_rets (snd (recv_str \<lparr>fd = 4\<rparr> joined_world)) = [] \<and>
   fst (recv_str \<lparr>fd = 4\<rparr> unterminated_world) = Returned ''PINGYZ'' \<and>
   fst (recv_str \<lparr>fd = 4\<rparr> overrun_world) = Undefined"
proof -
  have j: "recv_rets joined_world = [(10, ''PONG'' @ NUL # ''PING'' @ [NUL], zeros)]"
    by (simp add: joined_world_def quiet_def)
  have "\<forall>pre post. ''PONG'' @ NUL # ''PING'' @ [NUL] = pre @ NUL # post \<and> NUL \<notin> set pre \<longrightarrow>
      fst (recv_str \<lparr>fd = 4\<rparr> joined_world) = Returned pre"
    and r: "recv_rets (snd (recv_str \<lparr>fd = 4\<rparr> joined_world)) = []"
    using recv_str_one_read [OF j, of "\<lparr>fd = 4\<rparr>"] by simp_all
  from this(1) have p: "fst (recv_str \<lparr>fd = 4\<rparr> joined_world) = Returned ''PONG''"
    by (elim allE [of _ "''PONG''"] allE [of _ "''PING'' @ [NUL]"]) (simp add: NUL_def)
  have u: "recv_rets unterminated_world = [(4, ''PING'', ''....YZ'' @ zeros)]"
    by (simp add: unterminated_world_def quiet_def)
  have y: "fst (recv_str \<lparr>fd = 4\<rparr> unterminated_world) = Returned ''PINGYZ''"
    using recv_str_one_read [OF u, of "\<lparr>fd = 4\<rparr>"]
    by (simp add: zeros_def NUL_def c_str_def)
  have v: "recv_rets overrun_world = [(2, ''PI'', replicate 128 (CHR ''Z''))]"
    by (simp add: overrun_world_def quiet_def)
  have z: "fst (recv_str \<lparr>fd = 4\<rparr> overrun_world) = Undefined"
    using recv_str_one_read [OF v, of "\<lparr>fd = 4\<rparr>"]
    by (simp add: NUL_def)
  from p r y z show ?thesis by simp
qed

subsection \<open>C10: send_str\<close>

text \<open>
  C10. \<open>send_str\<close> makes one call of \<open>send\<close> and takes every return value that is not
  negative as success, also one smaller than the number of bytes handed over (the length of
  the text plus one): it returns normally, having made no second call. Only a negative
  return value makes it throw.
\<close>

theorem send_str_ignores_short_write:
  assumes "send_rets w = r # rs"
  shows "(0 \<le> r \<longrightarrow>
            send_str this s w =
              (Returned (), log (EvSend (fd this) (s @ [NUL]) r) (w\<lparr>send_rets := rs\<rparr>))) \<and>
         (r < 0 \<longrightarrow> fst (send_str this s w) = Thrown (runtime_error (''send: '' @ errno_text w)))"
  using assms by (simp add: send_str_nonneg send_str_neg)

theorem send_str_ignores_short_write_witness:
  "(2::int) < int (length (''PING'' @ [NUL])) \<and>
   send_str \<lparr>fd = 4\<rparr> ''PING'' short_write_world =
     (Returned (), log (EvSend 4 (''PING'' @ [NUL]) 2) (short_write_world\<lparr>send_rets := []\<rparr>))"
  using send_str_ignores_short_write [of short_write_world 2 "[]" "\<lparr>fd = 4\<rparr>" "''PING''"]
  by (simp add: short_write_world_def quiet_def)

subsection \<open>C8: the single dial of process_b\<close>

lemma process_b_loop_exchange:
  "nat (MAX_ITERATIONS - i) = k \<Longrightarrow>
   \<exists>ev. trace (snd (process_b_loop sock i w)) = trace w @ ev \<and> list_all is_exchange ev"
proof (induction k arbitrary: i w)
  case 0
  then show ?case by (simp add: process_b_loop_done)
next
  case (Suc k)
  have i: "i < MAX_ITERATIONS" "nat (MAX_ITERATIONS - (i + 1)) = k"
    using Suc.prems(1) by auto
  show ?case
  proof (cases w rule: round_cases)
    case (round_ok r rs n d mem rr)
    let ?w3 = "sent_b sock r rs (received sock n d rr w)"
    from Suc.IH [OF i(2), of ?w3] obtain ev where
      ev: "trace (snd (process_b_loop sock (i + 1) ?w3)) = trace ?w3 @ ev" "list_all is_exchange ev"
      by blast
    have "trace ?w3 = trace w @ [EvRecv (fd sock) 128 n (take (nat n) d), EvSleepFor,
                                 EvSend (fd sock) (''PONG'' @ [NUL]) r]"
      by (simp add: sent_b_def received_def log_def)
    with ev round_ok show ?thesis
      by (simp add: process_b_loop_step [OF i(1)])
  qed (auto simp: process_b_loop_step [OF i(1)] sent_b_def received_def log_def
            split: list.splits)
qed

lemma exchange_no_dial: "list_all is_exchange ev \<Longrightarrow> filter is_connect ev = [] \<and> EvSleep \<notin> set ev"
proof (induction ev)
  case Nil
  then show ?case by simp
next
  case (Cons e ev)
  then show ?case by (cases e) auto
qed

lemma process_b_after_dial:
  assumes "socket_rets w = r # rs" "0 \<le> r" "0 < inet_pton_ret w"
  shows "\<exists>ev. events_of w (snd (process_b w)) =
            [EvSocket r, EvInetPton (inet_pton_ret w), EvSleep, EvConnect r (connect_ret w)] @ ev \<and>
          filter is_connect ev = [] \<and> EvSleep \<notin> set ev"
proof (cases "connect_ret w < 0")
  case True
  with assms show ?thesis
    by (simp add: process_b_not_dialled events_of_def log_def dialled_def)
next
  case False
  then have c: "0 \<le> connect_ret w" by simp
  from process_b_loop_exchange [of 0 6 "\<lparr>fd = r\<rparr>" "dialled r rs w"] obtain ev where
    ev: "trace (snd (process_b_loop \<lparr>fd = r\<rparr> 0 (dialled r rs w))) = trace (dialled r rs w) @ ev"
      "list_all is_exchange ev"
    by (auto simp: MAX_ITERATIONS_def)
  obtain res w5 where l: "process_b_loop \<lparr>fd = r\<rparr> 0 (dialled r rs w) = (res, w5)"
    by (cases "process_b_loop \<lparr>fd = r\<rparr> 0 (dialled r rs w)")
  with ev have t: "trace w5 = trace w @ [EvSocket r, EvInetPton (inet_pton_ret w), EvSleep,
                           EvConnect r (connect_ret w)] @ ev"
    by (simp add: dialled_def)
  show ?thesis
    using assms c l t exchange_no_dial [OF ev(2)]
    by (cases res) (simp_all add: process_b_dialled [OF assms c] log_def events_of_def)
qed

lemma process_b_one_connect: "length (filter is_connect (events_of w (snd (process_b w)))) \<le> 1"
proof (cases w rule: process_b_cases)
  case (connect_failed r rs)
  then show ?thesis using process_b_after_dial [of w r rs] by auto
next
  case (connected r rs)
  then show ?thesis using process_b_after_dial [of w r rs] by auto
qed (simp_all add: process_b_not_dialled events_of_def)

text \<open>
  C8. No run of \<open>process_b\<close> calls \<open>connect\<close> more than once. When the socket is
  created and the address converted, the run starts with the creation, the conversion, the
  one \<open>sleep(1)\<close> and the one \<open>connect\<close>, in this order, and makes neither call
  again. When that \<open>connect\<close> fails, the role throws the runtime error of
  \<open>sys_error("connect")\<close> and only closes its socket.
\<close>

theorem process_b_dials_once:
  "length (filter is_connect (events_of w (snd (process_b w)))) \<le> 1 \<and>
   (socket_rets w = r # rs \<and> 0 \<le> r \<and> 0 < inet_pton_ret w \<longrightarrow>
      (\<exists>ev. events_of w (snd (process_b w)) =
               [EvSocket r, EvInetPton (inet_pton_ret w), EvSleep, EvConnect r (connect_ret w)] @ ev \<and>
             filter is_connect ev = [] \<and> EvSleep \<notin> set ev) \<and>
      (connect_ret w < 0 \<longrightarrow>
         fst (process_b w) = Thrown (runtime_error (''connect: '' @ errno_text w)) \<and>
         events_of w (snd (process_b w)) =
           [EvSocket r, EvInetPton (inet_pton_ret w), EvSleep, EvConnect r (connect_ret w), EvClose r]))"
  using process_b_one_connect [of w] process_b_after_dial [of w r rs]
    process_b_not_dialled(4) [of w r rs]
  by (auto simp: events_of_def log_def dialled_def)

theorem process_b_dials_once_witness:
  "fst (process_b refused_world) = Thrown (runtime_error ''connect: Connection refused'') \<and>
   events_of refused_world (snd (process_b refused_world)) =
     [EvSocket 4, EvInetPton 1, EvSleep, EvConnect 4 (-1), EvClose 4]"
  using process_b_dials_once [of refused_world 4 "[]"]
  by (simp add: refused_world_def quiet_def)

subsection \<open>C7: ownership of descriptors\<close>

lemma sole_owner_move_construct:
  "sole_owner st \<Longrightarrow> st other = Some s \<Longrightarrow> st new = None \<Longrightarrow>
   sole_owner (move_construct new other st) \<and>
   move_construct new other st = st(other \<mapsto> \<lparr>fd = -1\<rparr>, new \<mapsto> \<lparr>fd = fd s\<rparr>)"
  unfolding sole_owner_def move_construct_def Socket_move_ctor_def
  by (auto split: if_splits)

lemma sole_owner_move_assign:
  "sole_owner st \<Longrightarrow> st this = Some t \<Longrightarrow> st other = Some s \<Longrightarrow> this \<noteq> other \<Longrightarrow>
   sole_owner (fst (move_assign this other (st, w))) \<and>
   move_assign this other (st, w) =
     (st(this \<mapsto> \<lparr>fd = fd s\<rparr>, other \<mapsto> \<lparr>fd = -1\<rparr>), w\<lparr>trace := trace w @ closes t\<rparr>)"
  unfolding sole_owner_def move_assign_def Socket_move_assign_def closes_def
  by (auto simp: log_def split: if_splits)

lemma move_assign_self: "move_assign a a (st, w) = (st, w)"
  by (simp add: move_assign_def split: option.splits)

lemma sole_owner_destroy:
  "sole_owner st \<Longrightarrow> st a = Some s \<Longrightarrow>
   sole_owner (fst (destroy a (st, w))) \<and>
   destroy a (st, w) = (st(a := None), w\<lparr>trace := trace w @ closes s\<rparr>) \<and>
   (0 \<le> fd s \<longrightarrow> unowned (fd s) (st(a := None)))"
  unfolding sole_owner_def destroy_def Socket_dtor_def closes_def unowned_def
  by (auto simp: log_def split: if_splits)

lemma sole_owner_construct:
  "sole_owner st \<Longrightarrow> st a = None \<Longrightarrow> unowned d st \<Longrightarrow>
   sole_owner (fst (snd (construct a d (st, w)))) \<and>
   construct a d (st, w) =
     (if d < 0 then (Thrown (runtime_error (''socket: '' @ errno_text w)), st, w)
      else (Returned (), st(a \<mapsto> \<lparr>fd = d\<rparr>), w))"
  unfolding sole_owner_def construct_def Socket_ctor_def unowned_def
  by (auto simp: sys_error_def split: if_splits)

lemma sole_owner_two_handles: "sole_owner two_handles"
  by (auto simp: sole_owner_def two_handles_def split: if_splits)

text \<open>
  C7. In a store where no descriptor is held by two live handles, every special member
  function of \<open>Socket\<close> keeps it so. Move construction and move assignment give the
  descriptor of the source to the target and leave the source with \<open>-1\<close>; move assignment
  first closes the descriptor the target held, and assigning a handle to itself changes
  nothing. Destruction closes the descriptor of the handle once when it is not negative,
  after which no live handle holds it, and calls nothing when it is \<open>-1\<close>. The
  constructor keeps the property when it is given a descriptor that no live handle holds,
  as are the fresh descriptors \<open>socket\<close> and \<open>accept\<close> return.
\<close>

theorem handles_sole_owner:
  assumes "sole_owner st"
  shows "(st other = Some s \<and> st new = None \<longrightarrow>
            sole_owner (move_construct new other st) \<and>
            move_construct new other st = st(other \<mapsto> \<lparr>fd = -1\<rparr>, new \<mapsto> \<lparr>fd = fd s\<rparr>)) \<and>
         (st this = Some t \<and> st other = Some s \<and> this \<noteq> other \<longrightarrow>
            sole_owner (fst (move_assign this other (st, w))) \<and>
            move_assign this other (st, w) =
              (st(this \<mapsto> \<lparr>fd = fd s\<rparr>, other \<mapsto> \<lparr>fd = -1\<rparr>), w\<lparr>trace := trace w @ closes t\<rparr>)) \<and>
         move_assign this this (st, w) = (st, w) \<and>
         (st a = Some u \<longrightarrow>
            sole_owner (fst (destroy a (st, w))) \<and>
            destroy a (st, w) = (st(a := None), w\<lparr>trace := trace w @ closes u\<rparr>) \<and>
            (0 \<le> fd u \<longrightarrow> closes u = [EvClose (fd u)] \<and> unowned (fd u) (st(a := None))) \<and>
            (fd u = -1 \<longrightarrow> closes u = [])) \<and>
         (st b = None \<and> unowned d st \<longrightarrow> sole_owner (fst (snd (construct b d (st, w)))))"
proof (intro conjI impI)
  assume "st other = Some s \<and> st new = None"
  then show "sole_owner (move_construct new other st)"
    and "move_construct new other st = st(other \<mapsto> \<lparr>fd = -1\<rparr>, new \<mapsto> \<lparr>fd = fd s\<rparr>)"
    using sole_owner_move_construct [OF assms, of other s new] by blast+
next
  assume "st this = Some t \<and> st other = Some s \<and> this \<noteq> other"
  then show "sole_owner (fst (move_assign this other (st, w)))"
    and "move_assign this other (st, w) =
          (st(this \<mapsto> \<lparr>fd = fd s\<rparr>, other \<mapsto> \<lparr>fd = -1\<rparr>), w\<lparr>trace := trace w @ closes t\<rparr>)"
    using sole_owner_move_assign [OF assms, of this t other s w] by blast+
next
  show "move_assign this this (st, w) = (st, w)"
    by (rule move_assign_self)
next
  assume u: "st a = Some u"
  then show "sole_owner (fst (destroy a (st, w)))"
    and "destroy a (st, w) = (st(a := None), w\<lparr>trace := trace w @ closes u\<rparr>)"
    using sole_owner_destroy [OF assms, of a u w] by blast+
  show "closes u = [EvClose (fd u)]" if "0 \<le> fd u"
    using that by (simp add: closes_def)
  show "unowned (fd u) (st(a := None))" if "0 \<le> fd u"
    using that u sole_owner_destroy [OF assms, of a u w] by blast
  show "closes u = []" if "fd u = -1"
    using that by (simp add: closes_def)
next
  assume "st b = None \<and> unowned d st"
  then show "sole_owner (fst (snd (construct b d (st, w))))"
    using sole_owner_construct [OF assms, of b d w] by blast
qed

theorem handles_sole_owner_witness:
  "sole_owner two_handles \<and>
   move_construct 2 0 two_handles = two_handles(0 \<mapsto> \<lparr>fd = -1\<rparr>, 2 \<mapsto> \<lparr>fd = 3\<rparr>) \<and>
   move_assign 1 0 (two_handles, quiet) = (two_handles(1 \<mapsto> \<lparr>fd = 3\<rparr>, 0 \<mapsto> \<lparr>fd = -1\<rparr>), quiet) \<and>
   destroy 0 (two_handles, quiet) = (two_handles(0 := None), quiet\<lparr>trace := [EvClose 3]\<rparr>) \<and>
   destroy 1 (two_handles, quiet) = (two_handles(1 := None), quiet) \<and>
   sole_owner (fst (snd (construct 2 4 (two_handles, quiet))))"
  using handles_sole_owner [OF sole_owner_two_handles, where other = 0 and s = "\<lparr>fd = 3\<rparr>"
      and new = 2 and this = 1 and t = "\<lparr>fd = -1\<rparr>" and a = 0 and u = "\<lparr>fd = 3\<rparr>" and b = 2
      and d = 4 and w = quiet]
    handles_sole_owner [OF sole_owner_two_handles, where a = 1 and u = "\<lparr>fd = -1\<rparr>" and w = quiet]
    sole_owner_two_handles
  by (simp add: two_handles_def closes_def unowned_def quiet_def)

subsection \<open>C4: the exit status of main\<close>










lemma answered_accepted [simp]: "answered k (accepted r rs cfd w) = answered k w"
  by (simp add: answered_def accepted_def forked_def listening_def log_def)

lemma answered_forked [simp]: "answered k (forked r rs w) = answered k w"
  by (simp add: answered_def forked_def listening_def log_def)






















end
